theory Spec2Isabelle
  imports Main "HOL-Library.Word"
begin

section \<open>Data model of lib/work.c\<close>

text \<open>
  The counters of \<^verbatim>\<open>struct worker_info\<close> are \<^verbatim>\<open>size_t\<close>, the protection deadline and
  the result of \<^verbatim>\<open>wq_get_roof\<close> are \<^verbatim>\<open>uint64_t\<close>. Both are 64-bit unsigned machine words
  (the code is Linux-only and is built for LP64): every \<open>+\<close>, \<open>-\<close> and \<open>*\<close> below wraps
  around modulo \<open>2 ^ 64\<close>, as the C arithmetic does.
\<close>

type_synonym size_t = "64 word"
type_synonym uint64_t = "64 word"

definition SIZE_MAX :: size_t where
  "SIZE_MAX = 18446744073709551615"

definition WQ_PROTECTION_PERIOD :: uint64_t where
  "WQ_PROTECTION_PERIOD = 1000"

text \<open>
  Modelled from the spec: \<^verbatim>\<open>enum wq_thread_control\<close> is declared in work.h, which is not
  part of the sources at hand. The spec names its three policies (Ordered, Dynamic,
  Unlimited) and work.c names the three enumerators. The \<^verbatim>\<open>default: panic(...)\<close> branch
  of \<^verbatim>\<open>wq_get_roof\<close> has no inhabitant in this type.
\<close>

datatype wq_thread_control = WQ_ORDERED | WQ_DYNAMIC | WQ_UNLIMITED

text \<open>
  Modelled from the spec: \<^verbatim>\<open>struct work\<close> is declared in work.h. work.c reads its two
  function pointers \<^verbatim>\<open>fn\<close> and \<^verbatim>\<open>done\<close> (\<open>None\<close> is the null pointer) and links it into
  lists through \<^verbatim>\<open>w_list\<close>. An item is identified by its address.
\<close>

record work =
  w_addr :: nat
  fn :: "nat option"
  done_cb :: "nat option"

datatype mutex = pending_lock | finished_lock | startup_lock

datatype wq_list = pending_list_of_q | finished_list_of_wi

text \<open>
  The calls that work.c makes to its collaborators (the allocator, pthread, the intrusive
  list, the eventfd, the callbacks), in the order in which one thread makes them. Logging
  calls (\<^verbatim>\<open>sd_dprintf\<close>, \<^verbatim>\<open>sd_eprintf\<close>) are left out. \<open>Free\<close> is \<^verbatim>\<open>free\<close> of a pool
  structure: work.c has no such call, and no function below records one; the constructor
  is there so that the absence of the call can be stated.
\<close>

datatype action =
    Xzalloc
  | Free
  | MutexInit mutex
  | MutexLock mutex
  | MutexUnlock mutex
  | MutexDestroy mutex
  | CondInit
  | CondWait
  | CondSignal
  | CondDestroy
  | PthreadCreate bool
  | PthreadDetach
  | PthreadExit
  | SetThreadName
  | CallCreateCb
  | CallDestroyCb
  | ListAddTail wq_list work
  | ListDel wq_list work
  | ListSpliceInit
  | CallFn work
  | CallDone work
  | EventfdWrite
  | EventfdRead
  | EventfdCreate
  | RegisterEvent
  | CloseEfd
  | CallGetNrNodes

text \<open>
  Where a thread running \<^verbatim>\<open>worker_routine\<close> stands: before its start-up section, at the
  top of the \<^verbatim>\<open>while (true)\<close> loop, blocked in \<^verbatim>\<open>pthread_cond_wait\<close>, holding a dequeued
  item with no lock held, or gone.
\<close>

datatype wstate = W_START | W_TOP | W_WAIT | W_EXEC work | W_EXIT

text \<open>
  \<^verbatim>\<open>struct worker_info\<close>. \<open>pending_list\<close> is \<^verbatim>\<open>q.pending_list\<close>. The three mutexes and the
  condition variable carry no data; the calls on them are recorded in \<open>trace\<close>.
  \<open>threads\<close> holds the threads that \<^verbatim>\<open>pthread_create(&thread, NULL, worker_routine, wi)\<close>
  has started on this pool, each with its position in \<^verbatim>\<open>worker_routine\<close>; no function of
  the model reads a thread's position except to run that thread.
\<close>

record worker_info =
  name :: string
  finished_list :: "work list"
  pending_list :: "work list"
  nr_pending :: size_t
  nr_running :: size_t
  nr_threads :: size_t
  tm_end_of_protection :: uint64_t
  tc :: wq_thread_control
  threads :: "wstate list"
  trace :: "action list"

definition emit :: "action list \<Rightarrow> worker_info \<Rightarrow> worker_info" where
  "emit acts wi = wi\<lparr>trace := trace wi @ acts\<rparr>"

section \<open>Scaling policy\<close>

text \<open>\<^verbatim>\<open>wq_get_roof\<close>; its first argument is the static \<^verbatim>\<open>nr_nodes\<close>.\<close>

definition wq_get_roof :: "size_t \<Rightarrow> worker_info \<Rightarrow> uint64_t" where
  "wq_get_roof nodes wi =
     (case tc wi of
        WQ_ORDERED \<Rightarrow> 1
      | WQ_DYNAMIC \<Rightarrow> nodes * 2
      | WQ_UNLIMITED \<Rightarrow> SIZE_MAX)"

text \<open>
  \<^verbatim>\<open>wq_need_grow\<close>; \<open>now\<close> is what \<^verbatim>\<open>get_msec_time()\<close> returns. The \<^verbatim>\<open>&&\<close> is
  short-circuit, which is not observable here since \<^verbatim>\<open>wq_get_roof\<close> has no effect.
\<close>

definition wq_need_grow :: "size_t \<Rightarrow> uint64_t \<Rightarrow> worker_info \<Rightarrow> bool \<times> worker_info" where
  "wq_need_grow nodes now wi =
     (if nr_threads wi < nr_pending wi + nr_running wi \<and>
         nr_threads wi * 2 \<le> wq_get_roof nodes wi
      then (True, wi\<lparr>tm_end_of_protection := now + WQ_PROTECTION_PERIOD\<rparr>)
      else (False, wi))"

text \<open>\<^verbatim>\<open>wq_need_shrink\<close>; \<^verbatim>\<open>get_msec_time()\<close> is called once on either path.\<close>

definition wq_need_shrink :: "uint64_t \<Rightarrow> worker_info \<Rightarrow> bool \<times> worker_info" where
  "wq_need_shrink now wi =
     (if nr_pending wi + nr_running wi \<le> nr_threads wi div 2
      then (tm_end_of_protection wi \<le> now, wi)
      else (False, wi\<lparr>tm_end_of_protection := now + WQ_PROTECTION_PERIOD\<rparr>))"

section \<open>Thread creation and submission\<close>

text \<open>
  The \<^verbatim>\<open>while (wi->nr_threads < nr_threads)\<close> loop of \<^verbatim>\<open>create_worker_threads\<close>.
  \<open>avail\<close> is the number of \<^verbatim>\<open>pthread_create\<close> calls that succeed before the first one
  that fails; the loop returns at the first failure, so this covers every outcome.
  \<open>cb\<close> says whether \<^verbatim>\<open>wq_create_cb\<close> is set.
\<close>

fun create_worker_threads_loop ::
  "bool \<Rightarrow> nat \<Rightarrow> worker_info \<Rightarrow> size_t \<Rightarrow> int \<times> worker_info" where
  "create_worker_threads_loop cb 0 wi n =
     (if nr_threads wi < n
      then (- 1, emit [PthreadCreate False, MutexUnlock startup_lock] wi)
      else (0, emit [MutexUnlock startup_lock] wi))"
| "create_worker_threads_loop cb (Suc k) wi n =
     (if nr_threads wi < n
      then create_worker_threads_loop cb k
             ((emit (PthreadCreate True # (if cb then [CallCreateCb] else [])) wi)
                \<lparr>nr_threads := nr_threads wi + 1,
                 threads := threads wi @ [W_START]\<rparr>) n
      else (0, emit [MutexUnlock startup_lock] wi))"

definition create_worker_threads ::
  "bool \<Rightarrow> nat \<Rightarrow> worker_info \<Rightarrow> size_t \<Rightarrow> int \<times> worker_info" where
  "create_worker_threads cb avail wi n =
     create_worker_threads_loop cb avail (emit [MutexLock startup_lock] wi) n"

text \<open>
  \<^verbatim>\<open>queue_work\<close>. The return value of \<^verbatim>\<open>create_worker_threads\<close> is dropped, as in the
  source.
\<close>

definition queue_work ::
  "size_t \<Rightarrow> bool \<Rightarrow> uint64_t \<Rightarrow> nat \<Rightarrow> work \<Rightarrow> worker_info \<Rightarrow> worker_info" where
  "queue_work nodes cb now avail w wi =
     (let wi1 = (emit [MutexLock pending_lock] wi)\<lparr>nr_pending := nr_pending wi + 1\<rparr>;
          (grow, wi2) = wq_need_grow nodes now wi1;
          wi3 = (if grow
                 then snd (create_worker_threads cb avail wi2 (nr_threads wi2 * 2))
                 else wi2);
          wi4 = (emit [ListAddTail pending_list_of_q w] wi3)
                  \<lparr>pending_list := pending_list wi3 @ [w]\<rparr>
      in emit [MutexUnlock pending_lock, CondSignal] wi4)"

text \<open>\<^verbatim>\<open>work_queue_empty\<close>.\<close>

definition work_queue_empty :: "worker_info \<Rightarrow> bool \<times> worker_info" where
  "work_queue_empty wi =
     (let wi1 = emit [MutexLock pending_lock] wi;
          nr_works = nr_running wi1 + nr_pending wi1;
          wi2 = emit [MutexUnlock pending_lock] wi1
      in (nr_works = 0, wi2))"

section \<open>The worker\<close>

text \<open>
  The \<^verbatim>\<open>retest:\<close> label of \<^verbatim>\<open>worker_routine\<close>, entered with the pending lock held by
  thread \<open>t\<close>: on an empty list the thread leaves \<open>nr_running\<close> and blocks in
  \<^verbatim>\<open>pthread_cond_wait\<close> (which releases the lock); otherwise it takes the first item and
  unlocks.
\<close>

definition retest :: "nat \<Rightarrow> worker_info \<Rightarrow> worker_info" where
  "retest t wi =
     (case pending_list wi of
        [] \<Rightarrow> (emit [CondWait] wi)
                \<lparr>nr_running := nr_running wi - 1, threads := (threads wi)[t := W_WAIT]\<rparr>
      | w # ws \<Rightarrow> (emit [ListDel pending_list_of_q w, MutexUnlock pending_lock] wi)
                \<lparr>nr_pending := nr_pending wi - 1, pending_list := ws,
                 threads := (threads wi)[t := W_EXEC w]\<rparr>)"

text \<open>
  One uninterrupted stretch of \<^verbatim>\<open>worker_routine\<close> run by thread \<open>t\<close> of the pool, from
  where the thread stands to the next point where it holds no lock or blocks:
  \<^item> \<open>W_START\<close>: thread naming, the start-up lock, \<^verbatim>\<open>nr_running++\<close> under the pending lock;
  \<^item> \<open>W_TOP\<close>: the shrink check under the pending lock, then retirement or \<^verbatim>\<open>retest\<close>;
  \<^item> \<open>W_WAIT\<close>: \<^verbatim>\<open>pthread_cond_wait\<close> returns with the lock held, \<^verbatim>\<open>nr_running++\<close>,
    \<^verbatim>\<open>goto retest\<close>;
  \<^item> \<open>W_EXEC w\<close>: the call of \<^verbatim>\<open>work->fn\<close> if it is not null, the append to the finished
    list under the finished lock, \<^verbatim>\<open>eventfd_write\<close>.
  \<open>dcb\<close> says whether \<^verbatim>\<open>wq_destroy_cb\<close> is set. The last stretch holds no lock while
  \<^verbatim>\<open>fn\<close> runs; it is one step here because the call of \<^verbatim>\<open>fn\<close> touches nothing of the pool
  and the rest touches only the finished list, under the finished lock.
\<close>

definition worker_routine :: "bool \<Rightarrow> uint64_t \<Rightarrow> nat \<Rightarrow> worker_info \<Rightarrow> worker_info" where
  "worker_routine dcb now t wi =
     (if length (threads wi) \<le> t then wi
      else case threads wi ! t of
        W_START \<Rightarrow>
          (emit [SetThreadName, MutexLock startup_lock, MutexUnlock startup_lock,
                 MutexLock pending_lock, MutexUnlock pending_lock] wi)
            \<lparr>nr_running := nr_running wi + 1, threads := (threads wi)[t := W_TOP]\<rparr>
      | W_TOP \<Rightarrow>
          (let (shrink, wi1) = wq_need_shrink now (emit [MutexLock pending_lock] wi)
           in if shrink
              then (emit ((if dcb then [CallDestroyCb] else []) @
                          [MutexUnlock pending_lock, PthreadDetach, PthreadExit]) wi1)
                     \<lparr>nr_running := nr_running wi1 - 1, nr_threads := nr_threads wi1 - 1,
                      threads := (threads wi1)[t := W_EXIT]\<rparr>
              else retest t wi1)
      | W_WAIT \<Rightarrow> retest t (wi\<lparr>nr_running := nr_running wi + 1\<rparr>)
      | W_EXEC w \<Rightarrow>
          (emit ((if fn w \<noteq> None then [CallFn w] else []) @
                 [MutexLock finished_lock, ListAddTail finished_list_of_wi w,
                  MutexUnlock finished_lock, EventfdWrite]) wi)
            \<lparr>finished_list := finished_list wi @ [w], threads := (threads wi)[t := W_TOP]\<rparr>
      | W_EXIT \<Rightarrow> wi)"

section \<open>Process-wide state, creation and completion dispatch\<close>

text \<open>
  The file's static variables. \<open>'c\<close> is whatever the cluster-size provider looks at when
  it is called; \<open>wq_create_cb\<close> and \<open>wq_destroy_cb\<close> say whether the observer pointers are
  set. \<open>worker_info_list\<close> is in traversal order (\<^verbatim>\<open>list_add\<close> links a new pool in right
  after the head). \<open>calls\<close> records the calls that belong to no pool.
\<close>

record 'c wq_globals =
  efd :: int
  worker_info_list :: "worker_info list"
  nr_nodes :: size_t
  wq_get_nr_nodes :: "('c \<Rightarrow> size_t) option"
  wq_create_cb :: bool
  wq_destroy_cb :: bool
  calls :: "action list"

text \<open>The static initialisers: \<^verbatim>\<open>nr_nodes = 1\<close>, an empty list, null pointers.\<close>

definition initial_globals :: "'c wq_globals" where
  "initial_globals =
     \<lparr>efd = 0, worker_info_list = [], nr_nodes = 1, wq_get_nr_nodes = None,
      wq_create_cb = False, wq_destroy_cb = False, calls = []\<rparr>"

text \<open>
  \<^verbatim>\<open>init_work_queue\<close>; \<open>c\<close> is what the provider sees now, \<open>fd\<close> is the result of
  \<^verbatim>\<open>eventfd\<close> and \<open>reg\<close> the result of \<^verbatim>\<open>register_event\<close>.
\<close>

definition init_work_queue ::
  "('c \<Rightarrow> size_t) option \<Rightarrow> bool \<Rightarrow> bool \<Rightarrow> 'c \<Rightarrow> int \<Rightarrow> int \<Rightarrow> 'c wq_globals
     \<Rightarrow> int \<times> 'c wq_globals" where
  "init_work_queue get_nr_nodes create_cb destroy_cb c fd reg g =
     (let g1 = g\<lparr>wq_get_nr_nodes := get_nr_nodes, wq_create_cb := create_cb,
                 wq_destroy_cb := destroy_cb\<rparr>;
          g2 = (case wq_get_nr_nodes g1 of
                  Some f \<Rightarrow> g1\<lparr>nr_nodes := f c, calls := calls g1 @ [CallGetNrNodes]\<rparr>
                | None \<Rightarrow> g1);
          g3 = g2\<lparr>efd := fd, calls := calls g2 @ [EventfdCreate]\<rparr>
      in if efd g3 < 0 then (1, g3)
         else let g4 = g3\<lparr>calls := calls g3 @ [RegisterEvent]\<rparr>
              in if reg \<noteq> 0 then (1, g4\<lparr>calls := calls g4 @ [CloseEfd]\<rparr>)
                 else (0, g4))"

text \<open>
  The pool as \<^verbatim>\<open>create_work_queue\<close> has it before it starts the first thread: zeroed by
  \<^verbatim>\<open>xzalloc\<close>, named, both lists empty, the condition variable and the mutexes
  initialised.
\<close>

definition new_worker_info :: "string \<Rightarrow> wq_thread_control \<Rightarrow> worker_info" where
  "new_worker_info nm pol =
     \<lparr>name = nm, finished_list = [], pending_list = [], nr_pending = 0, nr_running = 0,
      nr_threads = 0, tm_end_of_protection = 0, tc = pol, threads = [],
      trace = [Xzalloc, CondInit, MutexInit finished_lock, MutexInit pending_lock,
               MutexInit startup_lock]\<rparr>"

text \<open>
  \<^verbatim>\<open>create_work_queue\<close>. The result is the handle (\<open>None\<close> is the null pointer), the
  statics, and the pool structure as the call leaves it. A handle is the number of pools
  created before this one; \<open>pool_index\<close> finds its pool in the list.
\<close>

definition create_work_queue ::
  "string \<Rightarrow> wq_thread_control \<Rightarrow> nat \<Rightarrow> 'c wq_globals
     \<Rightarrow> nat option \<times> 'c wq_globals \<times> worker_info" where
  "create_work_queue nm pol avail g =
     (let (ret, wi) = create_worker_threads (wq_create_cb g) avail (new_worker_info nm pol) 1
      in if ret < 0
         then (None, g,
               emit [MutexUnlock startup_lock, CondDestroy, MutexDestroy pending_lock,
                     MutexDestroy startup_lock, MutexDestroy finished_lock] wi)
         else (Some (length (worker_info_list g)),
               g\<lparr>worker_info_list := wi # worker_info_list g\<rparr>, wi))"

definition create_ordered_work_queue ::
  "string \<Rightarrow> nat \<Rightarrow> 'c wq_globals \<Rightarrow> nat option \<times> 'c wq_globals \<times> worker_info" where
  "create_ordered_work_queue nm avail g = create_work_queue nm WQ_ORDERED avail g"

definition pool_index :: "'c wq_globals \<Rightarrow> nat \<Rightarrow> nat" where
  "pool_index g h = length (worker_info_list g) - Suc h"

text \<open>
  A call through a null \<^verbatim>\<open>done\<close> pointer ends the process; it is the one failure the
  model keeps as a value.
\<close>

datatype error = NullDoneCall

text \<open>
  The \<^verbatim>\<open>while (!list_empty(&list))\<close> loop of \<^verbatim>\<open>worker_thread_request_done\<close> over the
  spliced-out items: \<^verbatim>\<open>work->done(work)\<close> for each, first to last, with no test of the
  pointer. What a callback does is outside work.c.
\<close>

fun call_done_each :: "work list \<Rightarrow> error + action list" where
  "call_done_each [] = Inr []"
| "call_done_each (w # ws) =
     (case done_cb w of
        None \<Rightarrow> Inl NullDoneCall
      | Some d \<Rightarrow>
          (case call_done_each ws of
             Inl e \<Rightarrow> Inl e
           | Inr acts \<Rightarrow> Inr (CallDone w # acts)))"

text \<open>The body of \<^verbatim>\<open>list_for_each_entry\<close> for one pool.\<close>

definition drain_finished :: "worker_info \<Rightarrow> error + worker_info" where
  "drain_finished wi =
     (let spliced = finished_list wi;
          wi1 = (emit [MutexLock finished_lock, ListSpliceInit, MutexUnlock finished_lock] wi)
                  \<lparr>finished_list := []\<rparr>
      in case call_done_each spliced of
           Inl e \<Rightarrow> Inl e
         | Inr acts \<Rightarrow> Inr (emit acts wi1))"

fun drain_each :: "worker_info list \<Rightarrow> error + worker_info list" where
  "drain_each [] = Inr []"
| "drain_each (wi # wis) =
     (case drain_finished wi of
        Inl e \<Rightarrow> Inl e
      | Inr wi' \<Rightarrow>
          (case drain_each wis of
             Inl e \<Rightarrow> Inl e
           | Inr wis' \<Rightarrow> Inr (wi' # wis')))"

text \<open>
  \<^verbatim>\<open>worker_thread_request_done\<close>; \<open>c\<close> is what the provider sees now and \<open>ret\<close> the
  result of \<^verbatim>\<open>eventfd_read\<close>.
\<close>

definition worker_thread_request_done ::
  "'c \<Rightarrow> int \<Rightarrow> 'c wq_globals \<Rightarrow> error + 'c wq_globals" where
  "worker_thread_request_done c ret g =
     (let g1 = (case wq_get_nr_nodes g of
                  Some f \<Rightarrow> g\<lparr>nr_nodes := f c, calls := calls g @ [CallGetNrNodes]\<rparr>
                | None \<Rightarrow> g);
          g2 = g1\<lparr>calls := calls g1 @ [EventfdRead]\<rparr>
      in if ret < 0 then Inr g2
         else case drain_each (worker_info_list g2) of
                Inl e \<Rightarrow> Inl e
              | Inr wis \<Rightarrow> Inr (g2\<lparr>worker_info_list := wis\<rparr>))"

section \<open>Runs of the whole component\<close>

text \<open>
  What can happen to the component, one event per uninterrupted stretch of code: the
  calls of the exported functions, one stretch of one worker thread, one run of the
  dispatcher callback. Every stretch that touches the counters or the pending list holds
  the pending lock throughout, so between two events no thread holds that lock. The
  dispatcher callback touches \<^verbatim>\<open>nr_nodes\<close> and the finished lists only; what its callbacks
  do (a submission, say) is an event of its own. Pools are named by their handles, and the
  clock value and the outcome of each system call are part of the event.
\<close>

datatype 'c event =
    EvInit "('c \<Rightarrow> size_t) option" bool bool 'c int int
  | EvCreate string wq_thread_control nat
  | EvQueueWork nat work uint64_t nat
  | EvWorker nat nat uint64_t
  | EvQueueEmpty nat
  | EvRequestDone 'c int

definition on_pool :: "nat \<Rightarrow> (worker_info \<Rightarrow> worker_info) \<Rightarrow> 'c wq_globals \<Rightarrow> 'c wq_globals" where
  "on_pool h f g =
     (if h < length (worker_info_list g)
      then g\<lparr>worker_info_list :=
               (worker_info_list g)[pool_index g h := f (worker_info_list g ! pool_index g h)]\<rparr>
      else g)"

fun step :: "'c event \<Rightarrow> 'c wq_globals \<Rightarrow> error + 'c wq_globals" where
  "step (EvInit p ccb dcb c fd reg) g = Inr (snd (init_work_queue p ccb dcb c fd reg g))"
| "step (EvCreate nm pol avail) g = Inr (fst (snd (create_work_queue nm pol avail g)))"
| "step (EvQueueWork h w now avail) g =
     Inr (on_pool h (queue_work (nr_nodes g) (wq_create_cb g) now avail w) g)"
| "step (EvWorker h t now) g = Inr (on_pool h (worker_routine (wq_destroy_cb g) now t) g)"
| "step (EvQueueEmpty h) g = Inr (on_pool h (\<lambda>wi. snd (work_queue_empty wi)) g)"
| "step (EvRequestDone c ret) g = worker_thread_request_done c ret g"

fun exec :: "'c event list \<Rightarrow> 'c wq_globals \<Rightarrow> error + 'c wq_globals" where
  "exec [] g = Inr g"
| "exec (e # es) g = (case step e g of Inl x \<Rightarrow> Inl x | Inr g' \<Rightarrow> exec es g')"

text \<open>\<open>guarded G es g\<close>: \<open>G\<close> holds in every state in which an event of the run starts.\<close>

fun guarded :: "('c wq_globals \<Rightarrow> bool) \<Rightarrow> 'c event list \<Rightarrow> 'c wq_globals \<Rightarrow> bool" where
  "guarded G [] g = True"
| "guarded G (e # es) g =
     (G g \<and> (case step e g of Inl x \<Rightarrow> True | Inr g' \<Rightarrow> guarded G es g'))"

text \<open>Whether an event hands the component a cluster-size provider.\<close>

fun supplies_provider :: "'c event \<Rightarrow> bool" where
  "supplies_provider (EvInit p ccb dcb c fd reg) = (p \<noteq> None)"
| "supplies_provider e = False"

section \<open>Bookkeeping for the properties\<close>

text \<open>
  A thread is counted in \<open>nr_running\<close> from its start-up section until it blocks or
  retires, and in \<open>nr_threads\<close> from its creation until it retires.
\<close>

fun counted :: "wstate \<Rightarrow> bool" where
  "counted W_TOP = True"
| "counted (W_EXEC w) = True"
| "counted p = False"

fun live :: "wstate \<Rightarrow> bool" where
  "live W_EXIT = False"
| "live p = True"

text \<open>The three counters agree with the threads and the pending list of the pool.\<close>

definition accounted :: "worker_info \<Rightarrow> bool" where
  "accounted wi \<longleftrightarrow>
     unat (nr_threads wi) = length (filter live (threads wi)) \<and>
     unat (nr_running wi) = length (filter counted (threads wi)) \<and>
     nr_pending wi = of_nat (length (pending_list wi))"

text \<open>
  The pending items and the live threads of a pool are distinct objects in one 64-bit
  address space, so there are fewer than \<open>2 ^ 64\<close> of them.
\<close>

definition fits :: "worker_info \<Rightarrow> bool" where
  "fits wi \<longleftrightarrow> length (pending_list wi) + length (filter live (threads wi)) < 2 ^ 64"

definition all_fit :: "'c wq_globals \<Rightarrow> bool" where
  "all_fit g \<longleftrightarrow> list_all fits (worker_info_list g)"

text \<open>The pool has at least one thread.\<close>

definition staffed :: "worker_info \<Rightarrow> bool" where
  "staffed wi \<longleftrightarrow> accounted wi \<and> 0 < unat (nr_threads wi)"

text \<open>The thread count respects the ceilings of the Ordered and the Dynamic policy.\<close>

definition within_ceiling :: "nat \<Rightarrow> worker_info \<Rightarrow> bool" where
  "within_ceiling N wi \<longleftrightarrow>
     accounted wi \<and>
     (tc wi = WQ_ORDERED \<longrightarrow> unat (nr_threads wi) \<le> 1) \<and>
     (tc wi = WQ_DYNAMIC \<longrightarrow> unat (nr_threads wi) \<le> 2 * N)"

text \<open>
  The items that a trace links to the tail of the pending list, and the items that it
  takes off the pending list, in the order of the calls.
\<close>

fun enq_of :: "action \<Rightarrow> work list" where
  "enq_of (ListAddTail pending_list_of_q w) = [w]"
| "enq_of a = []"

fun deq_of :: "action \<Rightarrow> work list" where
  "deq_of (ListDel pending_list_of_q w) = [w]"
| "deq_of a = []"

definition enqueued :: "action list \<Rightarrow> work list" where
  "enqueued acts = concat (map enq_of acts)"

definition dequeued :: "action list \<Rightarrow> work list" where
  "dequeued acts = concat (map deq_of acts)"


text \<open>
  Whether a sequence of calls made by one thread unlocks mutex \<open>m\<close> at a moment when the
  thread does not hold it; \<open>held\<close> says whether it holds \<open>m\<close> at the start.
\<close>

fun unlocks_unheld :: "mutex \<Rightarrow> bool \<Rightarrow> action list \<Rightarrow> bool" where
  "unlocks_unheld m held [] = False"
| "unlocks_unheld m held (a # acts) =
     (if a = MutexUnlock m then (if held then unlocks_unheld m False acts else True)
      else if a = MutexLock m then unlocks_unheld m True acts
      else unlocks_unheld m held acts)"

text \<open>
  A sample run: an Ordered and a Dynamic pool on a one-node cluster; the Dynamic pool's
  first thread starts, takes the first of two items and finishes it; the Ordered pool
  gets one item; the dispatcher runs once.
\<close>

definition sample_run :: "size_t event list" where
  "sample_run =
     [EvInit (Some (\<lambda>c. c)) False False 1 3 0,
      EvCreate ''block'' WQ_ORDERED 1,
      EvCreate ''gway'' WQ_DYNAMIC 1,
      EvWorker 1 0 100,
      EvQueueWork 1 \<lparr>w_addr = 1, fn = Some 10, done_cb = Some 11\<rparr> 100 4,
      EvWorker 1 0 100,
      EvQueueWork 1 \<lparr>w_addr = 2, fn = None, done_cb = Some 11\<rparr> 200 4,
      EvQueueWork 0 \<lparr>w_addr = 3, fn = Some 10, done_cb = Some 11\<rparr> 200 4,
      EvWorker 1 0 300,
      EvRequestDone 1 0]"

section \<open>Properties\<close>

subsection \<open>Thread creation\<close>

lemma unat_succ_below: "(x :: 64 word) < n \<Longrightarrow> unat (x + 1) = Suc (unat x)"
proof -
  assume "x < n"
  then have "unat x < unat n" by (simp add: word_less_nat_alt)
  moreover have "unat n < 2 ^ 64" using unsigned_less [of n] by simp
  ultimately have "unat x + 1 < 2 ^ 64" by simp
  then show ?thesis by (simp add: unat_word_ariths)
qed

lemma create_worker_threads_loop_eq:
  "create_worker_threads_loop cb k wi n =
     (let d = unat n - unat (nr_threads wi); m = min k d
      in (if k < d then - 1 else 0,
          wi\<lparr>nr_threads := nr_threads wi + of_nat m,
             threads := threads wi @ replicate m W_START,
             trace := trace wi @
               concat (replicate m (PthreadCreate True # (if cb then [CallCreateCb] else []))) @
               (if k < d then [PthreadCreate False, MutexUnlock startup_lock]
                else [MutexUnlock startup_lock])\<rparr>))"
proof (induction k arbitrary: wi)
  case 0
  show ?case
    by (auto simp: Let_def emit_def word_less_nat_alt)
next
  case (Suc k)
  show ?case
  proof (cases "nr_threads wi < n")
    case False
    then have "unat n - unat (nr_threads wi) = 0"
      by (simp add: word_less_nat_alt)
    with False show ?thesis
      by (simp add: Let_def emit_def)
  next
    case True
    then have u: "unat (nr_threads wi + 1) = Suc (unat (nr_threads wi))"
      by (rule unat_succ_below)
    from True have lt: "unat (nr_threads wi) < unat n"
      by (simp add: word_less_nat_alt)
    then have d: "unat n - unat (nr_threads wi) = Suc (unat n - Suc (unat (nr_threads wi)))"
      by simp
    show ?thesis
      using True
      apply (simp only: create_worker_threads_loop.simps if_True Suc.IH)
      apply (simp add: Let_def emit_def u d replicate_app_Cons_same add.assoc)
      done
  qed
qed

lemma create_worker_threads_eq:
  "create_worker_threads cb k wi n =
     (let d = unat n - unat (nr_threads wi); m = min k d
      in (if k < d then - 1 else 0,
          wi\<lparr>nr_threads := nr_threads wi + of_nat m,
             threads := threads wi @ replicate m W_START,
             trace := trace wi @ [MutexLock startup_lock] @
               concat (replicate m (PthreadCreate True # (if cb then [CallCreateCb] else []))) @
               (if k < d then [PthreadCreate False, MutexUnlock startup_lock]
                else [MutexUnlock startup_lock])\<rparr>))"
  by (simp add: create_worker_threads_def create_worker_threads_loop_eq Let_def emit_def)

subsection \<open>The emptiness test\<close>

lemma word_sum_zero_iff:
  fixes a b :: "64 word"
  assumes "unat a + unat b < 2 ^ 64"
  shows "a + b = 0 \<longleftrightarrow> a = 0 \<and> b = 0"
proof -
  from assms have "unat (a + b) = unat a + unat b"
    by (simp add: unat_add_lem [THEN iffD1])
  then have "unat (a + b) = 0 \<longleftrightarrow> unat a = 0 \<and> unat b = 0"
    by simp
  then show ?thesis
    by (simp add: unat_0_iff)
qed

text \<open>
  C7. \<^verbatim>\<open>work_queue_empty\<close> returns true exactly when \<open>nr_pending\<close> and \<open>nr_running\<close> are
  both 0 at its read between locking and unlocking the pending lock, and it changes no
  field of the pool: the only thing it leaves behind is the lock and the unlock. The sum
  \<open>nr_running + nr_pending\<close> is a machine sum, so the statement is for counters whose sum
  fits in 64 bits.
\<close>

theorem work_queue_empty_iff:
  assumes "unat (nr_pending wi) + unat (nr_running wi) < 2 ^ 64"
  shows "(fst (work_queue_empty wi) \<longleftrightarrow> nr_pending wi = 0 \<and> nr_running wi = 0) \<and>
         snd (work_queue_empty wi) =
           wi\<lparr>trace := trace wi @ [MutexLock pending_lock, MutexUnlock pending_lock]\<rparr>"
proof -
  from assms have "unat (nr_running wi) + unat (nr_pending wi) < 2 ^ 64"
    by simp
  then have "nr_running wi + nr_pending wi = 0 \<longleftrightarrow> nr_running wi = 0 \<and> nr_pending wi = 0"
    by (rule word_sum_zero_iff)
  then show ?thesis
    by (auto simp: work_queue_empty_def Let_def emit_def)
qed

theorem work_queue_empty_iff_witness:
  "fst (work_queue_empty (new_worker_info ''gway'' WQ_DYNAMIC)) \<and>
   \<not> fst (work_queue_empty ((new_worker_info ''gway'' WQ_DYNAMIC)\<lparr>nr_running := 1\<rparr>))"
  using work_queue_empty_iff [of "new_worker_info ''gway'' WQ_DYNAMIC"]
    work_queue_empty_iff [of "(new_worker_info ''gway'' WQ_DYNAMIC)\<lparr>nr_running := 1\<rparr>"]
  by (simp add: new_worker_info_def)

subsection \<open>The shrink check\<close>

text \<open>
  C4, as the claim states it, fails: with 4 threads, one of them running, nothing
  pending, a deadline of 5000 and the clock at 4500, the shrink check does not retire the
  worker and leaves the deadline at 5000 instead of moving it to 5500.
\<close>

theorem wq_need_shrink_not_refreshed:
  "\<not> fst (wq_need_shrink 4500
        ((new_worker_info ''io'' WQ_DYNAMIC)
           \<lparr>nr_running := 1, nr_threads := 4, tm_end_of_protection := 5000\<rparr>)) \<and>
   tm_end_of_protection (snd (wq_need_shrink 4500
        ((new_worker_info ''io'' WQ_DYNAMIC)
           \<lparr>nr_running := 1, nr_threads := 4, tm_end_of_protection := 5000\<rparr>)))
     \<noteq> 4500 + WQ_PROTECTION_PERIOD"
  by (simp add: wq_need_shrink_def new_worker_info_def WQ_PROTECTION_PERIOD_def)

text \<open>
  C4, amended. When the shrink check does not retire the worker, the deadline is set to
  now + 1000 ms exactly if the pool is not over-provisioned
  (\<open>nr_pending + nr_running > nr_threads / 2\<close>); if the pool is over-provisioned the
  worker goes on only because the deadline has not passed yet, and the pool, the deadline
  included, is left as it was.
\<close>

theorem wq_need_shrink_deadline:
  assumes "\<not> fst (wq_need_shrink now wi)"
  shows "snd (wq_need_shrink now wi) =
           (if nr_pending wi + nr_running wi \<le> nr_threads wi div 2
            then wi
            else wi\<lparr>tm_end_of_protection := now + 1000\<rparr>) \<and>
         (nr_pending wi + nr_running wi \<le> nr_threads wi div 2
            \<longrightarrow> now < tm_end_of_protection wi)"
  using assms
  by (auto simp: wq_need_shrink_def WQ_PROTECTION_PERIOD_def split: if_splits)

theorem wq_need_shrink_deadline_witness:
  "tm_end_of_protection (snd (wq_need_shrink 4500
        ((new_worker_info ''io'' WQ_DYNAMIC)
           \<lparr>nr_running := 1, nr_threads := 4, tm_end_of_protection := 5000\<rparr>))) = 5000 \<and>
   tm_end_of_protection (snd (wq_need_shrink 4500
        ((new_worker_info ''io'' WQ_DYNAMIC)
           \<lparr>nr_running := 3, nr_threads := 4, tm_end_of_protection := 5000\<rparr>))) = 5500"
  using wq_need_shrink_deadline [of 4500 "(new_worker_info ''io'' WQ_DYNAMIC)
           \<lparr>nr_running := 1, nr_threads := 4, tm_end_of_protection := 5000\<rparr>"]
    wq_need_shrink_deadline [of 4500 "(new_worker_info ''io'' WQ_DYNAMIC)
           \<lparr>nr_running := 3, nr_threads := 4, tm_end_of_protection := 5000\<rparr>"]
  by (simp add: wq_need_shrink_def new_worker_info_def WQ_PROTECTION_PERIOD_def)

subsection \<open>Submission and the grow check\<close>

lemma queue_work_eq:
  "queue_work nodes cb now avail w wi =
     (if nr_threads wi < nr_pending wi + 1 + nr_running wi \<and>
         nr_threads wi * 2 \<le> wq_get_roof nodes wi
      then
        (let d = unat (nr_threads wi * 2) - unat (nr_threads wi); m = min avail d
         in wi\<lparr>nr_pending := nr_pending wi + 1,
               tm_end_of_protection := now + WQ_PROTECTION_PERIOD,
               nr_threads := nr_threads wi + of_nat m,
               threads := threads wi @ replicate m W_START,
               pending_list := pending_list wi @ [w],
               trace := trace wi @ [MutexLock pending_lock, MutexLock startup_lock] @
                 concat (replicate m (PthreadCreate True # (if cb then [CallCreateCb] else []))) @
                 (if avail < d then [PthreadCreate False, MutexUnlock startup_lock]
                  else [MutexUnlock startup_lock]) @
                 [ListAddTail pending_list_of_q w, MutexUnlock pending_lock, CondSignal]\<rparr>)
      else wi\<lparr>nr_pending := nr_pending wi + 1,
              pending_list := pending_list wi @ [w],
              trace := trace wi @ [MutexLock pending_lock, ListAddTail pending_list_of_q w,
                                   MutexUnlock pending_lock, CondSignal]\<rparr>)"
  by (simp add: queue_work_def wq_need_grow_def create_worker_threads_eq Let_def emit_def
      wq_get_roof_def)

lemma double_reached:
  fixes x :: "64 word"
  assumes "unat x < 2 ^ 63"
  shows "x + of_nat (unat (x * 2) - unat x) = x * 2"
proof -
  from assms have "unat (x * 2) = unat x * 2"
    by (simp add: unat_word_ariths)
  then have "unat (x * 2) - unat x = unat x"
    by simp
  then show ?thesis
    by simp
qed

text \<open>
  C3. The grow check answers yes exactly when \<open>nr_threads < nr_pending + nr_running\<close> and
  \<open>nr_threads * 2\<close> is at most the policy ceiling, and then it has set the deadline to
  now + 1000 ms before it returns; \<^verbatim>\<open>queue_work\<close> runs it on the pool with \<open>nr_pending\<close>
  already incremented. On yes, \<^verbatim>\<open>queue_work\<close> then starts threads towards
  \<open>nr_threads * 2\<close>: \<open>m\<close> of them, one \<^verbatim>\<open>pthread_create\<close> each, where \<open>m\<close> is the distance
  to the target unless \<^verbatim>\<open>pthread_create\<close> fails earlier; if no call fails and the doubling
  does not wrap, \<open>nr_threads\<close> ends at twice its value at the check. On no, no thread is
  started, \<^verbatim>\<open>pthread_create\<close> is not called and the deadline is what it was.
\<close>

theorem queue_work_grow_check:
  fixes wi :: worker_info
  assumes "wi' = queue_work nodes cb now avail w wi"
    and "m = min avail (unat (nr_threads wi * 2) - unat (nr_threads wi))"
  shows
    "wq_need_grow nodes now wi =
       (if nr_threads wi < nr_pending wi + nr_running wi \<and>
           nr_threads wi * 2 \<le> wq_get_roof nodes wi
        then (True, wi\<lparr>tm_end_of_protection := now + 1000\<rparr>)
        else (False, wi)) \<and>
     (nr_threads wi < nr_pending wi + 1 + nr_running wi \<and>
      nr_threads wi * 2 \<le> wq_get_roof nodes wi \<longrightarrow>
        tm_end_of_protection wi' = now + 1000 \<and>
        nr_threads wi' = nr_threads wi + of_nat m \<and>
        threads wi' = threads wi @ replicate m W_START \<and>
        length (filter (\<lambda>a. a = PthreadCreate True) (trace wi')) =
          length (filter (\<lambda>a. a = PthreadCreate True) (trace wi)) + m \<and>
        (unat (nr_threads wi) < 2 ^ 63 \<and> unat (nr_threads wi) \<le> avail \<longrightarrow>
           nr_threads wi' = nr_threads wi * 2)) \<and>
     (\<not> (nr_threads wi < nr_pending wi + 1 + nr_running wi \<and>
         nr_threads wi * 2 \<le> wq_get_roof nodes wi) \<longrightarrow>
        tm_end_of_protection wi' = tm_end_of_protection wi \<and>
        nr_threads wi' = nr_threads wi \<and>
        threads wi' = threads wi \<and>
        trace wi' = trace wi @ [MutexLock pending_lock, ListAddTail pending_list_of_q w,
                                MutexUnlock pending_lock, CondSignal])"
proof -
  have a: "wq_need_grow nodes now wi =
       (if nr_threads wi < nr_pending wi + nr_running wi \<and>
           nr_threads wi * 2 \<le> wq_get_roof nodes wi
        then (True, wi\<lparr>tm_end_of_protection := now + 1000\<rparr>)
        else (False, wi))"
    by (simp add: wq_need_grow_def WQ_PROTECTION_PERIOD_def)
  have cnt: "length (filter (\<lambda>a. a = PthreadCreate True)
       (concat (replicate k (PthreadCreate True # (if cb then [CallCreateCb] else []))))) = k" for k
    by (induction k) auto
  have dbl: "unat (nr_threads wi) < 2 ^ 63 \<Longrightarrow> unat (nr_threads wi) \<le> avail \<Longrightarrow>
      nr_threads wi + of_nat m = nr_threads wi * 2"
  proof -
    assume b: "unat (nr_threads wi) < 2 ^ 63" and c: "unat (nr_threads wi) \<le> avail"
    from b have "unat (nr_threads wi * 2) = unat (nr_threads wi) * 2"
      by (simp add: unat_word_ariths)
    with c have "m = unat (nr_threads wi * 2) - unat (nr_threads wi)"
      by (simp add: assms(2))
    with b show ?thesis
      by (simp add: double_reached)
  qed
  show ?thesis
    using dbl
    by (simp add: a assms queue_work_eq Let_def WQ_PROTECTION_PERIOD_def cnt)
qed

theorem queue_work_grow_check_witness:
  "nr_threads (queue_work 1 False 7000 3 \<lparr>w_addr = 1, fn = Some 10, done_cb = Some 11\<rparr>
      ((new_worker_info ''io'' WQ_DYNAMIC)\<lparr>nr_running := 1, nr_threads := 1, threads := [W_TOP]\<rparr>)) = 2 \<and>
   tm_end_of_protection (queue_work 1 False 7000 3 \<lparr>w_addr = 1, fn = Some 10, done_cb = Some 11\<rparr>
      ((new_worker_info ''io'' WQ_DYNAMIC)\<lparr>nr_running := 1, nr_threads := 1, threads := [W_TOP]\<rparr>)) = 8000 \<and>
   nr_threads (queue_work 1 False 7000 3 \<lparr>w_addr = 1, fn = Some 10, done_cb = Some 11\<rparr>
      ((new_worker_info ''io'' WQ_DYNAMIC)\<lparr>nr_running := 2, nr_threads := 2, threads := [W_TOP, W_TOP]\<rparr>)) = 2 \<and>
   tm_end_of_protection (queue_work 1 False 7000 3 \<lparr>w_addr = 1, fn = Some 10, done_cb = Some 11\<rparr>
      ((new_worker_info ''io'' WQ_DYNAMIC)\<lparr>nr_running := 2, nr_threads := 2, threads := [W_TOP, W_TOP]\<rparr>)) = 0"
  using queue_work_grow_check [OF refl refl, where nodes = 1 and cb = False and now = 7000
      and avail = 3 and w = "\<lparr>w_addr = 1, fn = Some 10, done_cb = Some 11\<rparr>"
      and wi = "(new_worker_info ''io'' WQ_DYNAMIC)\<lparr>nr_running := 1, nr_threads := 1, threads := [W_TOP]\<rparr>"]
    queue_work_grow_check [OF refl refl, where nodes = 1 and cb = False and now = 7000
      and avail = 3 and w = "\<lparr>w_addr = 1, fn = Some 10, done_cb = Some 11\<rparr>"
      and wi = "(new_worker_info ''io'' WQ_DYNAMIC)\<lparr>nr_running := 2, nr_threads := 2, threads := [W_TOP, W_TOP]\<rparr>"]
  by (simp add: new_worker_info_def wq_get_roof_def)

subsection \<open>Completion dispatch\<close>

lemma call_done_each_eq:
  "call_done_each ws =
     (if \<forall>w\<in>set ws. done_cb w \<noteq> None then Inr (map CallDone ws) else Inl NullDoneCall)"
  by (induction ws) (auto split: option.splits sum.splits)

lemma drain_finished_eq:
  "drain_finished wi =
     (if \<forall>w\<in>set (finished_list wi). done_cb w \<noteq> None
      then Inr (wi\<lparr>finished_list := [],
                   trace := trace wi @
                     [MutexLock finished_lock, ListSpliceInit, MutexUnlock finished_lock] @
                     map CallDone (finished_list wi)\<rparr>)
      else Inl NullDoneCall)"
  by (simp add: drain_finished_def call_done_each_eq Let_def emit_def)

lemma drain_finished_error: "drain_finished wi = Inl e \<Longrightarrow> e = NullDoneCall"
  by (simp add: drain_finished_eq split: if_splits)

lemma drain_each_Inr:
  "drain_each wis = Inr wis' \<longleftrightarrow> list_all2 (\<lambda>wi wi'. drain_finished wi = Inr wi') wis wis'"
proof (induction wis arbitrary: wis')
  case Nil
  show ?case by auto
next
  case (Cons wi wis)
  show ?case
    by (cases wis') (auto simp: Cons.IH [symmetric] split: sum.splits)
qed

lemma drain_each_Inl:
  "wi \<in> set wis \<Longrightarrow> w \<in> set (finished_list wi) \<Longrightarrow> done_cb w = None \<Longrightarrow>
   drain_each wis = Inl NullDoneCall"
proof (induction wis)
  case Nil
  then show ?case by simp
next
  case (Cons a wis)
  show ?case
  proof (cases "drain_finished a")
    case (Inl e)
    then show ?thesis by (simp add: drain_finished_error)
  next
    case (Inr a')
    with Cons.prems have "wi \<noteq> a"
      by (auto simp: drain_finished_eq split: if_splits)
    with Cons have "drain_each wis = Inl NullDoneCall" by simp
    with Inr show ?thesis by simp
  qed
qed

lemma request_done_Inr:
  assumes "worker_thread_request_done c ret g = Inr g'"
  shows "nr_nodes g' = (case wq_get_nr_nodes g of Some f \<Rightarrow> f c | None \<Rightarrow> nr_nodes g)"
    and "calls g' = calls g @
           (case wq_get_nr_nodes g of Some f \<Rightarrow> [CallGetNrNodes] | None \<Rightarrow> []) @ [EventfdRead]"
    and "wq_get_nr_nodes g' = wq_get_nr_nodes g"
    and "wq_create_cb g' = wq_create_cb g" and "wq_destroy_cb g' = wq_destroy_cb g"
    and "ret < 0 \<Longrightarrow> worker_info_list g' = worker_info_list g"
    and "0 \<le> ret \<Longrightarrow>
           list_all2 (\<lambda>wi wi'. drain_finished wi = Inr wi') (worker_info_list g) (worker_info_list g')"
  using assms
  by (auto simp: worker_thread_request_done_def Let_def drain_each_Inr [symmetric]
      split: option.splits sum.splits if_splits)

subsection \<open>The policy ceiling and the node count\<close>

lemma step_keeps_default:
  assumes "step e g = Inr g'" and "\<not> supplies_provider e" and "wq_get_nr_nodes g = None"
  shows "wq_get_nr_nodes g' = None \<and> nr_nodes g' = nr_nodes g"
proof (cases e)
  case (EvInit p ccb dcb c fd reg)
  with assms show ?thesis
    by (auto simp: init_work_queue_def Let_def)
next
  case (EvCreate nm pol avail)
  with assms show ?thesis
    by (auto simp: create_work_queue_def split: prod.splits if_splits)
next
  case (EvRequestDone c ret)
  with assms show ?thesis
    by (simp add: request_done_Inr)
qed (use assms in \<open>auto simp: on_pool_def\<close>)

lemma exec_keeps_default:
  "exec evs g = Inr g' \<Longrightarrow> \<forall>e\<in>set evs. \<not> supplies_provider e \<Longrightarrow>
   wq_get_nr_nodes g = None \<Longrightarrow> nr_nodes g' = nr_nodes g"
proof (induction evs arbitrary: g)
  case Nil
  then show ?case by simp
next
  case (Cons e evs)
  from Cons.prems(1) obtain g1 where s: "step e g = Inr g1" and r: "exec evs g1 = Inr g'"
    by (auto split: sum.splits)
  from s Cons.prems have "wq_get_nr_nodes g1 = None \<and> nr_nodes g1 = nr_nodes g"
    by (intro step_keeps_default) auto
  with Cons.IH [OF r] Cons.prems show ?case by simp
qed

text \<open>
  C5. The ceiling of an Ordered pool is 1, that of an Unlimited pool is \<^verbatim>\<open>SIZE_MAX\<close>, the
  largest value of the type, and that of a Dynamic pool is \<open>2 * nr_nodes\<close> in machine
  arithmetic, which is twice the node count for every count below \<open>2 ^ 63\<close>. \<open>nr_nodes\<close>
  starts at 1 and stays 1 through every run in which no provider is supplied; with a
  provider, \<^verbatim>\<open>init_work_queue\<close> and every run of \<^verbatim>\<open>worker_thread_request_done\<close> set it to
  what the provider returns, with exactly one call of the provider per run of the
  dispatcher callback.
\<close>

theorem roof_per_policy:
  "(tc wi = WQ_ORDERED \<longrightarrow> wq_get_roof nodes wi = 1) \<and>
   (tc wi = WQ_UNLIMITED \<longrightarrow> wq_get_roof nodes wi = SIZE_MAX \<and> unat SIZE_MAX = 2 ^ 64 - 1) \<and>
   (tc wi = WQ_DYNAMIC \<longrightarrow> wq_get_roof nodes wi = 2 * nodes \<and>
      (unat nodes < 2 ^ 63 \<longrightarrow> unat (wq_get_roof nodes wi) = 2 * unat nodes)) \<and>
   nr_nodes (initial_globals :: 'c wq_globals) = 1 \<and>
   (exec evs (initial_globals :: 'c wq_globals) = Inr g0 \<and>
    (\<forall>e\<in>set evs. \<not> supplies_provider e) \<longrightarrow> nr_nodes g0 = 1) \<and>
   nr_nodes (snd (init_work_queue p ccb dcb c fd reg g)) =
     (case p of Some f \<Rightarrow> f c | None \<Rightarrow> nr_nodes g) \<and>
   (worker_thread_request_done c ret g = Inr g' \<longrightarrow>
      nr_nodes g' = (case wq_get_nr_nodes g of Some f \<Rightarrow> f c | None \<Rightarrow> nr_nodes g) \<and>
      calls g' = calls g @
        (case wq_get_nr_nodes g of Some f \<Rightarrow> [CallGetNrNodes] | None \<Rightarrow> []) @ [EventfdRead])"
proof -
  have a: "exec evs (initial_globals :: 'c wq_globals) = Inr g0 \<Longrightarrow>
      \<forall>e\<in>set evs. \<not> supplies_provider e \<Longrightarrow> nr_nodes g0 = 1"
    using exec_keeps_default [of evs "initial_globals :: 'c wq_globals" g0]
    by (simp add: initial_globals_def)
  have b: "unat nodes < 2 ^ 63 \<Longrightarrow> unat (nodes * 2) = 2 * unat nodes"
    by (simp add: unat_word_ariths)
  have c: "nr_nodes (snd (init_work_queue p ccb dcb c fd reg g)) =
     (case p of Some f \<Rightarrow> f c | None \<Rightarrow> nr_nodes g)"
    by (simp add: init_work_queue_def Let_def split: option.splits)
  show ?thesis
    using a b c
    by (auto simp: wq_get_roof_def SIZE_MAX_def initial_globals_def request_done_Inr)
qed

theorem roof_per_policy_witness:
  "wq_get_roof 3 (new_worker_info ''gway'' WQ_DYNAMIC) = 6 \<and>
   unat (wq_get_roof 3 (new_worker_info ''gway'' WQ_DYNAMIC)) = 2 * 3 \<and>
   wq_get_roof 3 (new_worker_info ''block'' WQ_ORDERED) = 1 \<and>
   wq_get_roof 3 (new_worker_info ''io'' WQ_UNLIMITED) = SIZE_MAX \<and>
   map_sum id nr_nodes
     (exec [EvInit None False False 3 7 0, EvCreate ''gway'' WQ_DYNAMIC 1, EvRequestDone 5 0]
        (initial_globals :: size_t wq_globals)) = Inr 1 \<and>
   map_sum id nr_nodes
     (worker_thread_request_done 5 0
        ((initial_globals :: size_t wq_globals)\<lparr>wq_get_nr_nodes := Some (\<lambda>c. c)\<rparr>)) = Inr 5"
proof -
  let ?evs = "[EvInit None False False 3 7 0, EvCreate ''gway'' WQ_DYNAMIC 1, EvRequestDone 5 0]
                :: size_t event list"
  let ?g = "(initial_globals :: size_t wq_globals)\<lparr>wq_get_nr_nodes := Some (\<lambda>c. c)\<rparr>"
  have "\<exists>g0. exec ?evs initial_globals = Inr g0"
    by (simp add: initial_globals_def init_work_queue_def create_work_queue_def
        create_worker_threads_eq new_worker_info_def Let_def worker_thread_request_done_def
        drain_finished_eq)
  then obtain g0 where e: "exec ?evs initial_globals = Inr g0" ..
  have "\<exists>g'. worker_thread_request_done 5 0 ?g = Inr g'"
    by (simp add: initial_globals_def worker_thread_request_done_def)
  then obtain g' where d: "worker_thread_request_done 5 0 ?g = Inr g'" ..
  have n: "\<forall>e\<in>set ?evs. \<not> supplies_provider e"
    by simp
  have u: "unat (3 :: size_t) < 2 ^ 63"
    by simp
  note r = roof_per_policy [where nodes = 3 and evs = ?evs and ?g0.0 = g0 and c = 5
      and ret = 0 and g = ?g and g' = g' and p = None and ccb = False and dcb = False
      and fd = 0 and reg = 0]
  note r = r [where wi = "new_worker_info ''gway'' WQ_DYNAMIC"]
    r [where wi = "new_worker_info ''block'' WQ_ORDERED"]
    r [where wi = "new_worker_info ''io'' WQ_UNLIMITED"]
  from r(1) e n have 1: "nr_nodes g0 = 1"
    by blast
  from r(1) d have 2: "nr_nodes g' = 5"
    by (simp add: initial_globals_def)
  from r(1) u have 3: "wq_get_roof 3 (new_worker_info ''gway'' WQ_DYNAMIC) = 6 \<and>
      unat (wq_get_roof 3 (new_worker_info ''gway'' WQ_DYNAMIC)) = 2 * 3"
    by (simp add: new_worker_info_def)
  from r(2) have 4: "wq_get_roof 3 (new_worker_info ''block'' WQ_ORDERED) = 1"
    by (simp add: new_worker_info_def)
  from r(3) have 5: "wq_get_roof 3 (new_worker_info ''io'' WQ_UNLIMITED) = SIZE_MAX"
    by (simp add: new_worker_info_def)
  have 6: "map_sum id nr_nodes (exec ?evs initial_globals) = Inr 1"
    unfolding e using 1 by simp
  have 7: "map_sum id nr_nodes (worker_thread_request_done 5 0 ?g) = Inr 5"
    unfolding d using 2 by simp
  from 3 4 5 6 7 show ?thesis
    by blast
qed

subsection \<open>Pool creation\<close>

text \<open>
  C8. When the one \<^verbatim>\<open>pthread_create\<close> of \<^verbatim>\<open>create_work_queue\<close> fails, the call returns the
  null handle and leaves the statics, the registry among them, as they were. Of the
  partial state it destroys the condition variable and the three mutexes, but the calls
  made on the abandoned structure, from its allocation to the return, contain no \<^verbatim>\<open>free\<close>:
  the structure is reachable from nowhere and stays allocated. The path also unlocks the
  start-up lock a second time, after \<^verbatim>\<open>create_worker_threads\<close> has already unlocked it on
  its own failure path, and only then destroys it.
\<close>

theorem create_work_queue_failure_path:
  "create_work_queue nm pol 0 g =
     (None, g,
      (new_worker_info nm pol)
        \<lparr>trace :=
           [Xzalloc, CondInit, MutexInit finished_lock, MutexInit pending_lock,
            MutexInit startup_lock, MutexLock startup_lock, PthreadCreate False,
            MutexUnlock startup_lock, MutexUnlock startup_lock, CondDestroy,
            MutexDestroy pending_lock, MutexDestroy startup_lock,
            MutexDestroy finished_lock]\<rparr>) \<and>
   Free \<notin> set (trace (snd (snd (create_work_queue nm pol 0 g)))) \<and>
   unlocks_unheld startup_lock False (trace (snd (snd (create_work_queue nm pol 0 g))))"
  by (simp add: create_work_queue_def create_worker_threads_eq new_worker_info_def
      Let_def emit_def)

text \<open>
  When the \<^verbatim>\<open>pthread_create\<close> succeeds, the pool has exactly one thread, it is linked into
  the registry, and the handle that is returned finds it there.
\<close>

lemma create_work_queue_success:
  assumes "create_work_queue nm pol avail g = (h, g', wi)" and "0 < avail"
  shows "h = Some (length (worker_info_list g)) \<and>
         g' = g\<lparr>worker_info_list := wi # worker_info_list g\<rparr> \<and>
         worker_info_list g' ! pool_index g' (length (worker_info_list g)) = wi \<and>
         nr_threads wi = 1 \<and> threads wi = [W_START] \<and>
         length (filter (\<lambda>a. a = PthreadCreate True) (trace wi)) = 1 \<and>
         PthreadCreate False \<notin> set (trace wi) \<and>
         \<not> unlocks_unheld startup_lock False (trace wi) \<and>
         nr_pending wi = 0 \<and> nr_running wi = 0 \<and> pending_list wi = [] \<and>
         finished_list wi = [] \<and> tc wi = pol \<and> name wi = nm"
proof (cases avail)
  case 0
  with assms(2) show ?thesis by simp
next
  case (Suc k)
  then have m: "min avail (Suc 0) = Suc 0" by simp
  from Suc assms(1) show ?thesis
    by (cases "wq_create_cb g")
      (auto simp: create_work_queue_def create_worker_threads_eq new_worker_info_def
        Let_def emit_def pool_index_def m)
qed

subsection \<open>Items without a work function\<close>

text \<open>
  C9. For an item \<open>w\<close> whose \<^verbatim>\<open>fn\<close> is null: the worker that holds it makes no call of
  \<^verbatim>\<open>fn\<close>, appends it to the finished list under the finished lock, writes the eventfd
  and is back at the top of its loop. The dispatcher callback, when its read of the
  eventfd succeeds, calls \<^verbatim>\<open>done\<close> on every item it splices out of a pool's finished list,
  \<open>w\<close> among them, whatever the item's \<^verbatim>\<open>fn\<close> is. It does so with no test of the \<^verbatim>\<open>done\<close>
  pointer: with a null \<^verbatim>\<open>done\<close> the run ends in the call through the null pointer.
\<close>

theorem null_fn_item_completes:
  assumes "fn w = None"
  shows
    "(t < length (threads wi) \<and> threads wi ! t = W_EXEC w \<longrightarrow>
        worker_routine dcb now t wi =
          wi\<lparr>finished_list := finished_list wi @ [w],
             threads := (threads wi)[t := W_TOP],
             trace := trace wi @
               [MutexLock finished_lock, ListAddTail finished_list_of_wi w,
                MutexUnlock finished_lock, EventfdWrite]\<rparr>) \<and>
     (0 \<le> ret \<and> worker_thread_request_done c ret g = Inr g' \<and>
      i < length (worker_info_list g) \<and> w \<in> set (finished_list (worker_info_list g ! i)) \<longrightarrow>
        CallDone w \<in> set (trace (worker_info_list g' ! i)) \<and>
        trace (worker_info_list g' ! i) =
          trace (worker_info_list g ! i) @
          [MutexLock finished_lock, ListSpliceInit, MutexUnlock finished_lock] @
          map CallDone (finished_list (worker_info_list g ! i)) \<and>
        finished_list (worker_info_list g' ! i) = []) \<and>
     (0 \<le> ret \<and> i < length (worker_info_list g) \<and>
      w \<in> set (finished_list (worker_info_list g ! i)) \<and> done_cb w = None \<longrightarrow>
        worker_thread_request_done c ret g = Inl NullDoneCall)"
proof (intro conjI impI)
  assume "t < length (threads wi) \<and> threads wi ! t = W_EXEC w"
  with assms show "worker_routine dcb now t wi =
          wi\<lparr>finished_list := finished_list wi @ [w],
             threads := (threads wi)[t := W_TOP],
             trace := trace wi @
               [MutexLock finished_lock, ListAddTail finished_list_of_wi w,
                MutexUnlock finished_lock, EventfdWrite]\<rparr>"
    by (simp add: worker_routine_def emit_def)
next
  assume a: "0 \<le> ret \<and> worker_thread_request_done c ret g = Inr g' \<and>
      i < length (worker_info_list g) \<and> w \<in> set (finished_list (worker_info_list g ! i))"
  then have "list_all2 (\<lambda>wi wi'. drain_finished wi = Inr wi')
      (worker_info_list g) (worker_info_list g')"
    by (intro request_done_Inr(7) [of c ret g g']) auto
  with a have d: "drain_finished (worker_info_list g ! i) = Inr (worker_info_list g' ! i)"
    by (simp add: list_all2_conv_all_nth)
  then have e: "worker_info_list g' ! i =
      (worker_info_list g ! i)\<lparr>finished_list := [],
         trace := trace (worker_info_list g ! i) @
           [MutexLock finished_lock, ListSpliceInit, MutexUnlock finished_lock] @
           map CallDone (finished_list (worker_info_list g ! i))\<rparr>"
    by (simp add: drain_finished_eq split: if_splits)
  from a show "CallDone w \<in> set (trace (worker_info_list g' ! i))"
    by (simp add: e)
  show "trace (worker_info_list g' ! i) =
          trace (worker_info_list g ! i) @
          [MutexLock finished_lock, ListSpliceInit, MutexUnlock finished_lock] @
          map CallDone (finished_list (worker_info_list g ! i))"
    by (simp add: e)
  show "finished_list (worker_info_list g' ! i) = []"
    by (simp add: e)
next
  assume a: "0 \<le> ret \<and> i < length (worker_info_list g) \<and>
      w \<in> set (finished_list (worker_info_list g ! i)) \<and> done_cb w = None"
  then have "drain_each (worker_info_list g) = Inl NullDoneCall"
    by (intro drain_each_Inl [of "worker_info_list g ! i" _ w]) auto
  with a show "worker_thread_request_done c ret g = Inl NullDoneCall"
    by (simp add: worker_thread_request_done_def Let_def split: option.splits)
qed

theorem null_fn_item_completes_witness:
  "trace (worker_routine False 0 0
      ((new_worker_info ''io'' WQ_ORDERED)
         \<lparr>nr_running := 1, nr_threads := 1,
          threads := [W_EXEC \<lparr>w_addr = 1, fn = None, done_cb = Some 11\<rparr>], trace := []\<rparr>)) =
     [MutexLock finished_lock,
      ListAddTail finished_list_of_wi \<lparr>w_addr = 1, fn = None, done_cb = Some 11\<rparr>,
      MutexUnlock finished_lock, EventfdWrite] \<and>
   map_sum id (\<lambda>g. map trace (worker_info_list g))
     (worker_thread_request_done () 0
        ((initial_globals :: unit wq_globals)
           \<lparr>worker_info_list :=
              [(new_worker_info ''io'' WQ_ORDERED)
                 \<lparr>nr_running := 1, nr_threads := 1, threads := [W_TOP], trace := [],
                  finished_list := [\<lparr>w_addr = 1, fn = None, done_cb = Some 11\<rparr>]\<rparr>]\<rparr>)) =
     Inr [[MutexLock finished_lock, ListSpliceInit, MutexUnlock finished_lock,
           CallDone \<lparr>w_addr = 1, fn = None, done_cb = Some 11\<rparr>]] \<and>
   worker_thread_request_done () 0
        ((initial_globals :: unit wq_globals)
           \<lparr>worker_info_list :=
              [(new_worker_info ''io'' WQ_ORDERED)
                 \<lparr>nr_running := 1, nr_threads := 1, threads := [W_TOP], trace := [],
                  finished_list := [\<lparr>w_addr = 1, fn = None, done_cb = None\<rparr>]\<rparr>]\<rparr>) =
     Inl NullDoneCall"
proof -
  let ?w = "\<lparr>w_addr = 1, fn = None, done_cb = Some 11\<rparr>"
  let ?v = "\<lparr>w_addr = 1, fn = None, done_cb = None\<rparr>"
  let ?wi = "(new_worker_info ''io'' WQ_ORDERED)
         \<lparr>nr_running := 1, nr_threads := 1, threads := [W_EXEC ?w], trace := []\<rparr>"
  let ?p = "\<lambda>x. (new_worker_info ''io'' WQ_ORDERED)
         \<lparr>nr_running := 1, nr_threads := 1, threads := [W_TOP], trace := [],
          finished_list := [x]\<rparr>"
  let ?g = "\<lambda>x. (initial_globals :: unit wq_globals)\<lparr>worker_info_list := [?p x]\<rparr>"
  have "\<exists>g'. worker_thread_request_done () 0 (?g ?w) = Inr g'"
    by (simp add: worker_thread_request_done_def initial_globals_def drain_finished_eq)
  then obtain g' where d: "worker_thread_request_done () 0 (?g ?w) = Inr g'" ..
  have l: "length (worker_info_list g') = 1"
    using request_done_Inr(7) [OF d] by (simp add: list_all2_lengthD [symmetric])
  note r = null_fn_item_completes [where w = ?w and t = 0 and wi = ?wi and dcb = False
      and now = 0 and ret = 0 and c = "()" and g = "?g ?w" and g' = g' and i = 0]
  note q = null_fn_item_completes [where w = ?v and t = 0 and wi = ?wi and dcb = False
      and now = 0 and ret = 0 and c = "()" and g = "?g ?v" and g' = g' and i = 0]
  from r have 1: "trace (worker_routine False 0 0 ?wi) =
     [MutexLock finished_lock, ListAddTail finished_list_of_wi ?w,
      MutexUnlock finished_lock, EventfdWrite]"
    by simp
  from r d have "trace (worker_info_list g' ! 0) =
      [MutexLock finished_lock, ListSpliceInit, MutexUnlock finished_lock, CallDone ?w]"
    by simp
  with l have "map trace (worker_info_list g') =
      [[MutexLock finished_lock, ListSpliceInit, MutexUnlock finished_lock, CallDone ?w]]"
    by (cases "worker_info_list g'") auto
  then have 2: "map_sum id (\<lambda>g. map trace (worker_info_list g))
      (worker_thread_request_done () 0 (?g ?w)) =
     Inr [[MutexLock finished_lock, ListSpliceInit, MutexUnlock finished_lock, CallDone ?w]]"
    unfolding d by simp
  from q have 3: "worker_thread_request_done () 0 (?g ?v) = Inl NullDoneCall"
    by simp
  from 1 2 3 show ?thesis
    by blast
qed

subsection \<open>Invariants of runs\<close>

lemma on_pool_set:
  assumes "wi' \<in> set (worker_info_list (on_pool h f g))"
  shows "wi' \<in> set (worker_info_list g) \<or> (\<exists>wi\<in>set (worker_info_list g). wi' = f wi)"
proof (cases "h < length (worker_info_list g)")
  case False
  with assms show ?thesis by (simp add: on_pool_def)
next
  case True
  then have i: "pool_index g h < length (worker_info_list g)"
    by (simp add: pool_index_def)
  from assms True have "wi' \<in> insert (f (worker_info_list g ! pool_index g h)) (set (worker_info_list g))"
    using set_update_subset_insert [of "worker_info_list g" "pool_index g h"]
    by (auto simp: on_pool_def)
  with i show ?thesis
    by (auto intro: nth_mem)
qed

lemma drain_each_set:
  assumes "drain_each wis = Inr wis'" and "wi' \<in> set wis'"
  shows "\<exists>wi\<in>set wis. drain_finished wi = Inr wi'"
proof -
  from assms(1) have l: "list_all2 (\<lambda>wi wi'. drain_finished wi = Inr wi') wis wis'"
    by (simp add: drain_each_Inr)
  from assms(2) obtain i where "i < length wis'" and "wis' ! i = wi'"
    by (auto simp: in_set_conv_nth)
  with l have "i < length wis" and "drain_finished (wis ! i) = Inr wi'"
    by (auto simp: list_all2_conv_all_nth)
  then show ?thesis
    by (auto intro: nth_mem)
qed

lemma step_pool_cases:
  assumes "step e g = Inr g'" and "wi' \<in> set (worker_info_list g')"
  shows "wi' \<in> set (worker_info_list g) \<or>
    (\<exists>nm pol avail. create_worker_threads (wq_create_cb g) avail (new_worker_info nm pol) 1 = (0, wi')) \<or>
    (\<exists>wi\<in>set (worker_info_list g).
       (\<exists>now avail w. wi' = queue_work (nr_nodes g) (wq_create_cb g) now avail w wi) \<or>
       (\<exists>now t. wi' = worker_routine (wq_destroy_cb g) now t wi) \<or>
       wi' = snd (work_queue_empty wi) \<or>
       drain_finished wi = Inr wi')"
proof (cases e)
  case (EvInit p ccb dcb c fd reg)
  with assms show ?thesis
    by (auto simp: init_work_queue_def Let_def split: option.splits if_splits)
next
  case (EvCreate nm pol avail)
  obtain r wi where c: "create_worker_threads (wq_create_cb g) avail (new_worker_info nm pol) 1 = (r, wi)"
    by (cases "create_worker_threads (wq_create_cb g) avail (new_worker_info nm pol) 1")
  then have "r = 0 \<or> r = - 1"
    by (auto simp: create_worker_threads_eq Let_def split: if_splits)
  with assms EvCreate c show ?thesis
    by (auto simp: create_work_queue_def)
next
  case (EvQueueWork h w now avail)
  with assms have "wi' \<in> set (worker_info_list
      (on_pool h (queue_work (nr_nodes g) (wq_create_cb g) now avail w) g))"
    by auto
  from on_pool_set [OF this] show ?thesis
    by blast
next
  case (EvWorker h t now)
  with assms have "wi' \<in> set (worker_info_list
      (on_pool h (worker_routine (wq_destroy_cb g) now t) g))"
    by auto
  from on_pool_set [OF this] show ?thesis
    by blast
next
  case (EvQueueEmpty h)
  with assms have "wi' \<in> set (worker_info_list
      (on_pool h (\<lambda>wi. snd (work_queue_empty wi)) g))"
    by auto
  from on_pool_set [OF this] show ?thesis
    by blast
next
  case (EvRequestDone c ret)
  with assms have d: "worker_thread_request_done c ret g = Inr g'"
    by simp
  show ?thesis
  proof (cases "ret < 0")
    case True
    with d assms show ?thesis by (simp add: request_done_Inr(6))
  next
    case False
    with d have "drain_each (worker_info_list g) = Inr (worker_info_list g')"
      by (simp add: request_done_Inr(7) drain_each_Inr)
    with assms(2) show ?thesis
      by (auto dest: drain_each_set)
  qed
qed

lemma pools_invariant:
  assumes run: "exec evs g = Inr g'"
    and guard: "guarded G evs g"
    and init: "\<forall>wi\<in>set (worker_info_list g). P wi"
    and create: "\<And>nm pol cb avail wi.
        create_worker_threads cb avail (new_worker_info nm pol) 1 = (0, wi) \<Longrightarrow> P wi"
    and queue: "\<And>s cb now avail w wi. G s \<Longrightarrow> wi \<in> set (worker_info_list s) \<Longrightarrow> P wi \<Longrightarrow>
        P (queue_work (nr_nodes s) cb now avail w wi)"
    and worker: "\<And>s dcb now t wi. G s \<Longrightarrow> wi \<in> set (worker_info_list s) \<Longrightarrow> P wi \<Longrightarrow>
        P (worker_routine dcb now t wi)"
    and empty: "\<And>wi. P wi \<Longrightarrow> P (snd (work_queue_empty wi))"
    and drain: "\<And>wi wi'. P wi \<Longrightarrow> drain_finished wi = Inr wi' \<Longrightarrow> P wi'"
  shows "\<forall>wi\<in>set (worker_info_list g'). P wi"
  using run guard init
proof (induction evs arbitrary: g)
  case Nil
  then show ?case by simp
next
  case (Cons e evs)
  from Cons.prems(1) obtain g1 where s: "step e g = Inr g1" and r: "exec evs g1 = Inr g'"
    by (auto split: sum.splits)
  from Cons.prems(2) s have G: "G g" and gd: "guarded G evs g1"
    by auto
  have "\<forall>wi\<in>set (worker_info_list g1). P wi"
  proof
    fix wi'
    assume "wi' \<in> set (worker_info_list g1)"
    from step_pool_cases [OF s this] Cons.prems(3) G
    show "P wi'"
      by (auto intro: create queue worker empty drain)
  qed
  with r gd show ?case
    by (rule Cons.IH)
qed

subsection \<open>The counters and the threads\<close>

lemma filter_update_count:
  "t < length xs \<Longrightarrow>
   length (filter P (xs[t := y])) + (if P (xs ! t) then 1 else 0) =
   length (filter P xs) + (if P y then 1 else 0)"
proof (induction xs arbitrary: t)
  case Nil
  then show ?case by simp
next
  case (Cons x xs)
  then show ?case
    by (cases t) auto
qed

lemma counted_le_live: "length (filter counted xs) \<le> length (filter live xs)"
proof (induction xs)
  case Nil
  show ?case by simp
next
  case (Cons x xs)
  then show ?case by (cases x) auto
qed

lemma counted_lt_live:
  "t < length xs \<Longrightarrow> live (xs ! t) \<Longrightarrow> \<not> counted (xs ! t) \<Longrightarrow>
   length (filter counted xs) < length (filter live xs)"
proof (induction xs arbitrary: t)
  case Nil
  then show ?case by simp
next
  case (Cons x xs)
  show ?case
  proof (cases t)
    case 0
    with Cons.prems counted_le_live [of xs] show ?thesis by simp
  next
    case (Suc k)
    with Cons.prems have "length (filter counted xs) < length (filter live xs)"
      by (intro Cons.IH [of k]) auto
    then show ?thesis by (cases x) auto
  qed
qed

lemma filter_pos:
  "t < length xs \<Longrightarrow> P (xs ! t) \<Longrightarrow> 0 < length (filter P xs)"
  by (metis filter_empty_conv length_greater_0_conv nth_mem)

lemma unat_add_small:
  fixes x n :: "64 word"
  assumes "m \<le> unat n - unat x"
  shows "unat (x + of_nat m) = unat x + m"
proof -
  have "unat n < 2 ^ 64" "unat x < 2 ^ 64"
    using unsigned_less [of n] unsigned_less [of x] by simp_all
  with assms have b: "unat x + m < 2 ^ 64"
    by linarith
  then have "m < 2 ^ 64" by simp
  then have "unat (of_nat m :: 64 word) = m"
    by (simp add: unat_of_nat)
  with b show ?thesis
    by (simp add: unat_word_ariths)
qed

lemma unat_inc:
  fixes x :: "64 word"
  assumes "unat x + 1 < 2 ^ 64"
  shows "unat (x + 1) = unat x + 1"
  using assms by (simp add: unat_word_ariths)

lemma unat_dec:
  fixes x :: "64 word"
  assumes "0 < unat x"
  shows "unat (x - 1) = unat x - 1"
  using assms by (simp add: unat_minus_one unat_gt_0)

lemma accounted_create:
  assumes "create_worker_threads cb avail (new_worker_info nm pol) 1 = (0, wi)"
  shows "accounted wi"
proof (cases avail)
  case 0
  with assms show ?thesis
    by (simp add: create_worker_threads_eq new_worker_info_def Let_def)
next
  case (Suc k)
  then have "min avail (Suc 0) = Suc 0" by simp
  with assms show ?thesis
    by (auto simp: create_worker_threads_eq new_worker_info_def Let_def accounted_def)
qed

lemma accounted_queue_work:
  assumes "accounted wi"
  shows "accounted (queue_work nodes cb now avail w wi)"
proof -
  let ?m = "min avail (unat (nr_threads wi * 2) - unat (nr_threads wi))"
  have "unat (nr_threads wi + of_nat ?m) = unat (nr_threads wi) + ?m"
    by (rule unat_add_small [where n = "nr_threads wi * 2"]) simp
  with assms show ?thesis
    by (simp add: queue_work_eq accounted_def Let_def)
qed

lemma accounted_work_queue_empty: "accounted wi \<Longrightarrow> accounted (snd (work_queue_empty wi))"
  by (simp add: accounted_def work_queue_empty_def Let_def emit_def)

lemma accounted_drain: "accounted wi \<Longrightarrow> drain_finished wi = Inr wi' \<Longrightarrow> accounted wi'"
  by (auto simp: accounted_def drain_finished_eq split: if_splits)

lemma unat_lt_64: "unat (x :: 64 word) < 2 ^ 64"
  using unsigned_less [of x] by simp

lemma filter_update_same:
  "t < length xs \<Longrightarrow> P (xs ! t) = P y \<Longrightarrow>
   length (filter P (xs[t := y])) = length (filter P xs)"
  using filter_update_count [of t xs P y] by (simp split: if_splits)

lemma filter_update_less:
  "t < length xs \<Longrightarrow> P (xs ! t) \<Longrightarrow> \<not> P y \<Longrightarrow>
   length (filter P (xs[t := y])) = length (filter P xs) - 1"
  using filter_update_count [of t xs P y] by simp

lemma filter_update_more:
  "t < length xs \<Longrightarrow> \<not> P (xs ! t) \<Longrightarrow> P y \<Longrightarrow>
   length (filter P (xs[t := y])) = length (filter P xs) + 1"
  using filter_update_count [of t xs P y] by simp

lemmas filter_update = filter_update_same filter_update_less filter_update_more

lemma list_update_same_state: "t < length xs \<Longrightarrow> xs ! t = p \<Longrightarrow> xs[t := p] = xs"
  by auto

lemma worker_routine_cases [consumes 0, case_names idle start retire sleep take spurious woken exec]:
  fixes wi :: worker_info and now :: uint64_t
  defines "over \<equiv> nr_pending wi + nr_running wi \<le> nr_threads wi div 2"
  defines "D \<equiv> (if over then tm_end_of_protection wi else now + WQ_PROTECTION_PERIOD)"
  obtains
    (idle) "worker_routine dcb now t wi = wi"
  | (start) "t < length (threads wi)" "threads wi ! t = W_START"
      "worker_routine dcb now t wi =
         wi\<lparr>nr_running := nr_running wi + 1, threads := (threads wi)[t := W_TOP],
            trace := trace wi @
              [SetThreadName, MutexLock startup_lock, MutexUnlock startup_lock,
               MutexLock pending_lock, MutexUnlock pending_lock]\<rparr>"
  | (retire) "t < length (threads wi)" "threads wi ! t = W_TOP"
      "nr_pending wi + nr_running wi \<le> nr_threads wi div 2" "tm_end_of_protection wi \<le> now"
      "worker_routine dcb now t wi =
         wi\<lparr>nr_running := nr_running wi - 1, nr_threads := nr_threads wi - 1,
            threads := (threads wi)[t := W_EXIT],
            trace := trace wi @ [MutexLock pending_lock] @
              (if dcb then [CallDestroyCb] else []) @
              [MutexUnlock pending_lock, PthreadDetach, PthreadExit]\<rparr>"
  | (sleep) "t < length (threads wi)" "threads wi ! t = W_TOP" "pending_list wi = []"
      "worker_routine dcb now t wi =
         wi\<lparr>tm_end_of_protection := D, nr_running := nr_running wi - 1,
            threads := (threads wi)[t := W_WAIT],
            trace := trace wi @ [MutexLock pending_lock, CondWait]\<rparr>"
  | (take) w ws where "t < length (threads wi)" "threads wi ! t = W_TOP"
      "pending_list wi = w # ws"
      "worker_routine dcb now t wi =
         wi\<lparr>tm_end_of_protection := D, nr_pending := nr_pending wi - 1, pending_list := ws,
            threads := (threads wi)[t := W_EXEC w],
            trace := trace wi @
              [MutexLock pending_lock, ListDel pending_list_of_q w, MutexUnlock pending_lock]\<rparr>"
  | (spurious) "t < length (threads wi)" "threads wi ! t = W_WAIT" "pending_list wi = []"
      "worker_routine dcb now t wi = wi\<lparr>trace := trace wi @ [CondWait]\<rparr>"
  | (woken) w ws where "t < length (threads wi)" "threads wi ! t = W_WAIT"
      "pending_list wi = w # ws"
      "worker_routine dcb now t wi =
         wi\<lparr>nr_running := nr_running wi + 1, nr_pending := nr_pending wi - 1,
            pending_list := ws, threads := (threads wi)[t := W_EXEC w],
            trace := trace wi @ [ListDel pending_list_of_q w, MutexUnlock pending_lock]\<rparr>"
  | (exec) w where "t < length (threads wi)" "threads wi ! t = W_EXEC w"
      "worker_routine dcb now t wi =
         wi\<lparr>finished_list := finished_list wi @ [w], threads := (threads wi)[t := W_TOP],
            trace := trace wi @ (if fn w \<noteq> None then [CallFn w] else []) @
              [MutexLock finished_lock, ListAddTail finished_list_of_wi w,
               MutexUnlock finished_lock, EventfdWrite]\<rparr>"
proof (cases "t < length (threads wi)")
  case False
  then show ?thesis
    by (intro idle) (simp add: worker_routine_def)
next
  case len: True
  show ?thesis
  proof (cases "threads wi ! t")
    case W_START
    with len show ?thesis
      by (intro start) (simp_all add: worker_routine_def emit_def)
  next
    case W_TOP
    show ?thesis
    proof (cases "over \<and> tm_end_of_protection wi \<le> now")
      case True
      with len W_TOP show ?thesis
        by (intro retire) (simp_all add: worker_routine_def emit_def wq_need_shrink_def over_def)
    next
      case False
      show ?thesis
      proof (cases "pending_list wi")
        case Nil
        with len W_TOP False show ?thesis
          by (intro sleep)
            (auto simp: worker_routine_def emit_def wq_need_shrink_def over_def D_def retest_def)
      next
        case (Cons w ws)
        with len W_TOP False show ?thesis
          by (intro take [of w ws])
            (auto simp: worker_routine_def emit_def wq_need_shrink_def over_def D_def retest_def)
      qed
    qed
  next
    case W_WAIT
    show ?thesis
    proof (cases "pending_list wi")
      case Nil
      with len W_WAIT show ?thesis
        by (intro spurious)
          (simp_all add: worker_routine_def emit_def retest_def list_update_same_state)
    next
      case (Cons w ws)
      with len W_WAIT show ?thesis
        by (intro woken [of w ws]) (simp_all add: worker_routine_def emit_def retest_def)
    qed
  next
    case (W_EXEC w)
    with len show ?thesis
      by (intro exec [of w]) (simp_all add: worker_routine_def emit_def)
  next
    case W_EXIT
    with len show ?thesis
      by (intro idle) (simp add: worker_routine_def)
  qed
qed

lemma accounted_worker_routine:
  assumes a: "accounted wi"
  shows "accounted (worker_routine dcb now t wi)"
proof (cases rule: worker_routine_cases [of dcb now t wi])
  case idle
  with a show ?thesis by simp
next
  case start
  from start(1,2) have "length (filter counted (threads wi)) < length (filter live (threads wi))"
    by (intro counted_lt_live [of t]) simp_all
  with a have "unat (nr_running wi) + 1 \<le> unat (nr_threads wi)"
    by (simp add: accounted_def)
  then have "unat (nr_running wi) + 1 < 2 ^ 64"
    using unat_lt_64 [of "nr_threads wi"] by simp
  then have u: "unat (nr_running wi + 1) = unat (nr_running wi) + 1"
    by (rule unat_inc)
  from start(1,2) a u show ?thesis
    by (simp add: start(3) accounted_def filter_update)
next
  case retire
  from retire(1,2) have "0 < length (filter counted (threads wi))"
    "0 < length (filter live (threads wi))"
    using filter_pos [of t "threads wi" counted] filter_pos [of t "threads wi" live]
    by simp_all
  with a have p: "0 < unat (nr_running wi)" "0 < unat (nr_threads wi)"
    by (simp_all add: accounted_def)
  from retire(1,2) a p show ?thesis
    by (simp add: retire(5) accounted_def unat_dec filter_update)
next
  case sleep
  from sleep(1,2) have "0 < length (filter counted (threads wi))"
    using filter_pos [of t "threads wi" counted] by simp
  with a have p: "0 < unat (nr_running wi)"
    by (simp add: accounted_def)
  from sleep(1,2) a p show ?thesis
    by (simp add: sleep(4) accounted_def unat_dec filter_update)
next
  case (take w ws)
  from take(1,2) a show ?thesis
    by (simp add: take(3,4) accounted_def filter_update)
next
  case spurious
  with a show ?thesis by (simp add: accounted_def)
next
  case (woken w ws)
  from woken(1,2) have "length (filter counted (threads wi)) < length (filter live (threads wi))"
    by (intro counted_lt_live [of t]) simp_all
  with a have "unat (nr_running wi) + 1 \<le> unat (nr_threads wi)"
    by (simp add: accounted_def)
  then have "unat (nr_running wi) + 1 < 2 ^ 64"
    using unat_lt_64 [of "nr_threads wi"] by simp
  then have u: "unat (nr_running wi + 1) = unat (nr_running wi) + 1"
    by (rule unat_inc)
  from woken(1,2) a u show ?thesis
    by (simp add: woken(3,4) accounted_def filter_update)
next
  case (exec w)
  from exec(1,2) a show ?thesis
    by (simp add: exec(3) accounted_def filter_update)
qed

lemma guarded_True: "guarded (\<lambda>s. True) evs g"
  by (induction evs arbitrary: g) (auto split: sum.splits)

lemma accounted_reachable:
  assumes "exec evs (initial_globals :: 'c wq_globals) = Inr g"
    and "wi \<in> set (worker_info_list g)"
  shows "accounted wi"
proof -
  have "\<forall>wi\<in>set (worker_info_list g). accounted wi"
  proof (rule pools_invariant [OF assms(1) guarded_True])
    show "\<forall>wi\<in>set (worker_info_list (initial_globals :: 'c wq_globals)). accounted wi"
      by (simp add: initial_globals_def)
  qed (auto intro: accounted_create accounted_queue_work accounted_worker_routine
        accounted_work_queue_empty accounted_drain)
  with assms(2) show ?thesis by blast
qed

lemma pending_worker_routine:
  "(nr_pending (worker_routine dcb now t x) = nr_pending x \<and>
    pending_list (worker_routine dcb now t x) = pending_list x) \<or>
   (nr_pending (worker_routine dcb now t x) = nr_pending x - 1 \<and>
    pending_list x \<noteq> [] \<and>
    pending_list (worker_routine dcb now t x) = tl (pending_list x))"
  by (cases rule: worker_routine_cases [of dcb now t x]) simp_all

text \<open>
  C10. In every state of every run, between two events (no thread holds the pending lock
  there), \<open>nr_pending\<close> of every pool is the length of its pending list, as a 64-bit
  value, and the very number while the list is shorter than \<open>2 ^ 64\<close>. \<^verbatim>\<open>queue_work\<close>
  adds one to \<open>nr_pending\<close> and appends one item; a stretch of a worker either leaves both
  alone or takes one off \<open>nr_pending\<close> and removes the first item; the emptiness test and
  the dispatcher touch neither.
\<close>

theorem nr_pending_is_list_length:
  assumes "exec evs (initial_globals :: 'c wq_globals) = Inr g"
    and "wi \<in> set (worker_info_list g)"
  shows
    "nr_pending wi = of_nat (length (pending_list wi)) \<and>
     (length (pending_list wi) < 2 ^ 64 \<longrightarrow> unat (nr_pending wi) = length (pending_list wi)) \<and>
     (nr_pending (queue_work nodes cb now avail w x) = nr_pending x + 1 \<and>
      pending_list (queue_work nodes cb now avail w x) = pending_list x @ [w]) \<and>
     ((nr_pending (worker_routine dcb now t x) = nr_pending x \<and>
       pending_list (worker_routine dcb now t x) = pending_list x) \<or>
      (nr_pending (worker_routine dcb now t x) = nr_pending x - 1 \<and>
       pending_list x \<noteq> [] \<and>
       pending_list (worker_routine dcb now t x) = tl (pending_list x))) \<and>
     (nr_pending (snd (work_queue_empty x)) = nr_pending x \<and>
      pending_list (snd (work_queue_empty x)) = pending_list x) \<and>
     (drain_finished x = Inr x' \<longrightarrow>
        nr_pending x' = nr_pending x \<and> pending_list x' = pending_list x)"
proof -
  from assms have a: "nr_pending wi = of_nat (length (pending_list wi))"
    by (auto dest: accounted_reachable simp: accounted_def)
  then have b: "length (pending_list wi) < 2 ^ 64 \<Longrightarrow>
      unat (nr_pending wi) = length (pending_list wi)"
    by (simp add: unat_of_nat)
  have c: "nr_pending (queue_work nodes cb now avail w x) = nr_pending x + 1 \<and>
      pending_list (queue_work nodes cb now avail w x) = pending_list x @ [w]"
    by (simp add: queue_work_eq Let_def)
  have d: "nr_pending (snd (work_queue_empty x)) = nr_pending x \<and>
      pending_list (snd (work_queue_empty x)) = pending_list x"
    by (simp add: work_queue_empty_def Let_def emit_def)
  have e: "drain_finished x = Inr x' \<Longrightarrow>
        nr_pending x' = nr_pending x \<and> pending_list x' = pending_list x"
    by (auto simp: drain_finished_eq split: if_splits)
  from a b c d e pending_worker_routine [of dcb now t x] show ?thesis
    by blast
qed

subsection \<open>A pool keeps a thread\<close>

lemma all_fit_mem: "all_fit s \<Longrightarrow> wi \<in> set (worker_info_list s) \<Longrightarrow> fits wi"
  by (simp add: all_fit_def list_all_iff)

lemma retire_needs_two:
  assumes a: "accounted wi" and f: "fits wi"
    and t: "t < length (threads wi)" "threads wi ! t = W_TOP"
    and over: "nr_pending wi + nr_running wi \<le> nr_threads wi div 2"
  shows "2 \<le> unat (nr_threads wi)"
proof -
  from f have l: "length (pending_list wi) < 2 ^ 64"
    by (simp add: fits_def)
  with a have p: "unat (nr_pending wi) = length (pending_list wi)"
    by (simp add: accounted_def unat_of_nat)
  from a have r: "unat (nr_running wi) = length (filter counted (threads wi))"
    by (simp add: accounted_def)
  have "length (filter counted (threads wi)) \<le> length (filter live (threads wi))"
    by (rule counted_le_live)
  with f p r have "unat (nr_pending wi) + unat (nr_running wi) < 2 ^ 64"
    by (simp add: fits_def)
  then have s: "unat (nr_pending wi + nr_running wi) = unat (nr_pending wi) + unat (nr_running wi)"
    by (simp add: unat_add_lem [THEN iffD1])
  from t have "0 < length (filter counted (threads wi))"
    using filter_pos [of t "threads wi" counted] by simp
  with r s have "1 \<le> unat (nr_pending wi + nr_running wi)"
    by linarith
  also from over have "unat (nr_pending wi + nr_running wi) \<le> unat (nr_threads wi div 2)"
    by (simp add: word_le_nat_alt)
  also have "unat (nr_threads wi div 2) = unat (nr_threads wi) div 2"
    by (simp add: unat_div)
  finally show ?thesis
    by simp
qed

lemma staffed_create:
  assumes "create_worker_threads cb avail (new_worker_info nm pol) 1 = (0, wi)"
  shows "staffed wi"
proof -
  from assms have "accounted wi" by (rule accounted_create)
  moreover have "0 < unat (nr_threads wi)"
  proof (cases avail)
    case 0
    with assms show ?thesis
      by (simp add: create_worker_threads_eq new_worker_info_def Let_def)
  next
    case (Suc k)
    then have "min avail (Suc 0) = Suc 0" by simp
    with assms show ?thesis
      by (auto simp: create_worker_threads_eq new_worker_info_def Let_def)
  qed
  ultimately show ?thesis by (simp add: staffed_def)
qed

lemma nr_threads_queue_work:
  "unat (nr_threads wi) \<le> unat (nr_threads (queue_work nodes cb now avail w wi)) \<and>
   unat (nr_threads (queue_work nodes cb now avail w wi)) \<le>
     max (unat (nr_threads wi)) (unat (nr_threads wi * 2)) \<and>
   (nr_threads (queue_work nodes cb now avail w wi) \<noteq> nr_threads wi \<longrightarrow>
      nr_threads wi < nr_pending wi + 1 + nr_running wi \<and>
      nr_threads wi * 2 \<le> wq_get_roof nodes wi)"
proof -
  let ?m = "min avail (unat (nr_threads wi * 2) - unat (nr_threads wi))"
  have "unat (nr_threads wi + of_nat ?m) = unat (nr_threads wi) + ?m"
    by (rule unat_add_small [where n = "nr_threads wi * 2"]) simp
  then show ?thesis
    by (auto simp: queue_work_eq Let_def)
qed

lemma staffed_queue_work: "staffed wi \<Longrightarrow> staffed (queue_work nodes cb now avail w wi)"
  using nr_threads_queue_work [of wi nodes cb now avail w]
  by (auto simp: staffed_def accounted_queue_work)

lemma staffed_worker_routine:
  assumes s: "staffed wi" and f: "fits wi"
  shows "staffed (worker_routine dcb now t wi)"
proof -
  from s have a: "accounted wi" and p: "0 < unat (nr_threads wi)"
    by (simp_all add: staffed_def)
  from a have a': "accounted (worker_routine dcb now t wi)"
    by (rule accounted_worker_routine)
  have "0 < unat (nr_threads (worker_routine dcb now t wi))"
  proof (cases rule: worker_routine_cases [of dcb now t wi])
    case retire
    from a f retire(1,2,3) have "2 \<le> unat (nr_threads wi)"
      by (rule retire_needs_two)
    then show ?thesis
      by (simp add: retire(5) unat_dec)
  qed (use p in simp_all)
  with a' show ?thesis by (simp add: staffed_def)
qed

lemma staffed_work_queue_empty: "staffed wi \<Longrightarrow> staffed (snd (work_queue_empty wi))"
  by (auto simp: staffed_def accounted_work_queue_empty)
    (simp add: work_queue_empty_def Let_def emit_def)

lemma staffed_drain: "staffed wi \<Longrightarrow> drain_finished wi = Inr wi' \<Longrightarrow> staffed wi'"
  by (auto simp: staffed_def accounted_def drain_finished_eq split: if_splits)

text \<open>
  Every pool keeps a thread. In every run in which the pending items and live threads of
  each pool stay below \<open>2 ^ 64\<close>, no pool of the registry has \<open>nr_threads = 0\<close>: a pool
  enters the registry with one thread, and the worker that runs the shrink check counts
  itself in \<open>nr_running\<close>, so it retires only when \<open>nr_threads\<close> is at least 2. The
  situation that C1 is about, a pool whose \<open>nr_threads\<close> has reached 0, is therefore met
  in no run.
\<close>

theorem nr_threads_never_zero:
  assumes "exec evs (initial_globals :: 'c wq_globals) = Inr g"
    and "guarded all_fit evs (initial_globals :: 'c wq_globals)"
    and "wi \<in> set (worker_info_list g)"
  shows "nr_threads wi \<noteq> 0"
proof -
  have "\<forall>wi\<in>set (worker_info_list g). staffed wi"
  proof (rule pools_invariant [OF assms(1,2)])
    show "\<forall>wi\<in>set (worker_info_list (initial_globals :: 'c wq_globals)). staffed wi"
      by (simp add: initial_globals_def)
  qed (auto intro: staffed_create staffed_queue_work staffed_worker_routine
        staffed_work_queue_empty staffed_drain all_fit_mem)
  with assms(3) have "0 < unat (nr_threads wi)"
    by (auto simp: staffed_def)
  then show ?thesis
    by (simp add: unat_gt_0)
qed

text \<open>
  Outside the runs: were \<^verbatim>\<open>queue_work\<close> called on a pool with \<open>nr_threads = 0\<close>, its
  creation target \<open>nr_threads * 2\<close> would be 0 and it would start no thread.
\<close>

lemma queue_work_at_zero_threads:
  assumes "nr_threads x = 0"
  shows "nr_threads (queue_work nodes cb now avail w x) = 0 \<and>
         threads (queue_work nodes cb now avail w x) = threads x"
  using assms by (simp add: queue_work_eq Let_def)

subsection \<open>The thread count and the ceiling\<close>

lemma unat_double_le: "unat (x * 2 :: 64 word) \<le> 2 * unat x"
  by (simp add: unat_word_ariths)

lemma tc_queue_work: "tc (queue_work nodes cb now avail w wi) = tc wi"
  by (simp add: queue_work_eq Let_def)

lemma tc_worker_routine: "tc (worker_routine dcb now t wi) = tc wi"
  by (cases rule: worker_routine_cases [of dcb now t wi]) simp_all

lemma nr_threads_worker_routine:
  assumes a: "accounted wi"
  shows "unat (nr_threads (worker_routine dcb now t wi)) \<le> unat (nr_threads wi)"
proof (cases rule: worker_routine_cases [of dcb now t wi])
  case retire
  from retire(1,2) have "0 < length (filter live (threads wi))"
    using filter_pos [of t "threads wi" live] by simp
  with a have "0 < unat (nr_threads wi)"
    by (simp add: accounted_def)
  then show ?thesis
    by (simp add: retire(5) unat_dec)
qed simp_all

lemma within_ceiling_create:
  assumes "create_worker_threads cb avail (new_worker_info nm pol) 1 = (0, wi)" and "1 \<le> N"
  shows "within_ceiling N wi"
proof -
  from assms(1) have "accounted wi" by (rule accounted_create)
  moreover have "unat (nr_threads wi) = 1"
  proof (cases avail)
    case 0
    with assms show ?thesis
      by (simp add: create_worker_threads_eq new_worker_info_def Let_def)
  next
    case (Suc k)
    then have "min avail (Suc 0) = Suc 0" by simp
    with assms show ?thesis
      by (auto simp: create_worker_threads_eq new_worker_info_def Let_def)
  qed
  ultimately show ?thesis using assms(2) by (simp add: within_ceiling_def)
qed

lemma within_ceiling_queue_work:
  assumes c: "within_ceiling N wi" and n: "unat nodes \<le> N"
  shows "within_ceiling N (queue_work nodes cb now avail w wi)"
proof -
  let ?wi' = "queue_work nodes cb now avail w wi"
  note q = nr_threads_queue_work [of wi nodes cb now avail w]
  from c have a: "accounted ?wi'"
    by (simp add: within_ceiling_def accounted_queue_work)
  have o: "unat (nr_threads ?wi') \<le> 1" if "tc wi = WQ_ORDERED"
  proof (cases "nr_threads ?wi' = nr_threads wi")
    case True
    with c that show ?thesis by (simp add: within_ceiling_def)
  next
    case False
    with q that have "nr_threads wi * 2 \<le> 1"
      by (simp add: wq_get_roof_def)
    then have "unat (nr_threads wi * 2) \<le> 1"
      by (simp add: word_le_nat_alt)
    with q c that show ?thesis
      by (auto simp: within_ceiling_def max_def split: if_splits)
  qed
  have d: "unat (nr_threads ?wi') \<le> 2 * N" if "tc wi = WQ_DYNAMIC"
  proof (cases "nr_threads ?wi' = nr_threads wi")
    case True
    with c that show ?thesis by (simp add: within_ceiling_def)
  next
    case False
    with q that have "nr_threads wi * 2 \<le> nodes * 2"
      by (simp add: wq_get_roof_def)
    then have "unat (nr_threads wi * 2) \<le> unat (nodes * 2)"
      by (simp add: word_le_nat_alt)
    also have "\<dots> \<le> 2 * unat nodes"
      by (rule unat_double_le)
    also from n have "\<dots> \<le> 2 * N"
      by simp
    finally have "unat (nr_threads wi * 2) \<le> 2 * N" .
    with q c that show ?thesis
      by (auto simp: within_ceiling_def max_def split: if_splits)
  qed
  from a o d show ?thesis
    by (simp add: within_ceiling_def tc_queue_work)
qed

lemma within_ceiling_worker_routine:
  assumes "within_ceiling N wi"
  shows "within_ceiling N (worker_routine dcb now t wi)"
proof -
  from assms have a: "accounted wi"
    by (simp add: within_ceiling_def)
  from nr_threads_worker_routine [OF a, of dcb now t] accounted_worker_routine [OF a, of dcb now t]
    assms
  show ?thesis
    by (auto simp: within_ceiling_def tc_worker_routine)
qed

lemma within_ceiling_work_queue_empty:
  "within_ceiling N wi \<Longrightarrow> within_ceiling N (snd (work_queue_empty wi))"
  by (auto simp: within_ceiling_def accounted_work_queue_empty)
    (simp_all add: work_queue_empty_def Let_def emit_def)

lemma within_ceiling_drain:
  "within_ceiling N wi \<Longrightarrow> drain_finished wi = Inr wi' \<Longrightarrow> within_ceiling N wi'"
  by (auto simp: within_ceiling_def accounted_def drain_finished_eq split: if_splits)

text \<open>
  C2, as the claim states it, fails for a Dynamic pool: on a two-node cluster three
  submissions grow the pool to 4 threads (ceiling 4); the dispatcher then polls the
  provider, which reports one node, and the ceiling is 2 while \<open>nr_threads\<close> is 4.
\<close>

theorem dynamic_pool_above_ceiling:
  "map_sum id (\<lambda>g. map (\<lambda>wi. (tc wi, nr_threads wi, wq_get_roof (nr_nodes g) wi))
                    (worker_info_list g))
     (exec [EvInit (Some (\<lambda>c. c)) False False 2 3 0,
            EvCreate ''gway'' WQ_DYNAMIC 1,
            EvQueueWork 0 \<lparr>w_addr = 1, fn = Some 10, done_cb = Some 11\<rparr> 100 4,
            EvQueueWork 0 \<lparr>w_addr = 2, fn = Some 10, done_cb = Some 11\<rparr> 100 4,
            EvQueueWork 0 \<lparr>w_addr = 3, fn = Some 10, done_cb = Some 11\<rparr> 100 4,
            EvRequestDone 1 0]
        (initial_globals :: size_t wq_globals)) =
   Inr [(WQ_DYNAMIC, 4, 2)]"
  by (simp add: initial_globals_def init_work_queue_def create_work_queue_def
      create_worker_threads_eq new_worker_info_def Let_def worker_thread_request_done_def
      drain_finished_eq on_pool_def pool_index_def queue_work_eq wq_get_roof_def)

text \<open>
  C2, amended. In every state of every run an Ordered pool has \<open>nr_threads\<close> at most 1,
  and a Dynamic pool has \<open>nr_threads\<close> at most \<open>2 * N\<close>, where \<open>N\<close> bounds the node count
  in force at the start of every event of the run; with a constant node count this is
  the ceiling. \<^verbatim>\<open>queue_work\<close> changes \<open>nr_threads\<close> only when \<open>nr_threads * 2\<close> is at most
  the ceiling at that moment.
\<close>

theorem nr_threads_within_ceiling:
  assumes "exec evs (initial_globals :: 'c wq_globals) = Inr g"
    and "guarded (\<lambda>s. unat (nr_nodes s) \<le> N) evs (initial_globals :: 'c wq_globals)"
    and "wi \<in> set (worker_info_list g)"
  shows "(tc wi = WQ_ORDERED \<longrightarrow> nr_threads wi \<le> 1) \<and>
         (tc wi = WQ_DYNAMIC \<longrightarrow> unat (nr_threads wi) \<le> 2 * N) \<and>
         (nr_threads (queue_work nodes cb now avail w x) \<noteq> nr_threads x \<longrightarrow>
            nr_threads x * 2 \<le> wq_get_roof nodes x)"
proof -
  have N: "1 \<le> N"
  proof (cases evs)
    case Nil
    with assms(1,3) show ?thesis by (auto simp: initial_globals_def)
  next
    case (Cons e es)
    with assms(2) show ?thesis by (simp add: initial_globals_def)
  qed
  have "\<forall>wi\<in>set (worker_info_list g). within_ceiling N wi"
  proof (rule pools_invariant [OF assms(1,2)])
    show "\<forall>wi\<in>set (worker_info_list (initial_globals :: 'c wq_globals)). within_ceiling N wi"
      by (simp add: initial_globals_def)
  qed (auto intro: within_ceiling_create within_ceiling_queue_work within_ceiling_worker_routine
        within_ceiling_work_queue_empty within_ceiling_drain N)
  with assms(3) have c: "within_ceiling N wi"
    by blast
  then have "tc wi = WQ_ORDERED \<Longrightarrow> nr_threads wi \<le> 1"
    by (simp add: within_ceiling_def word_le_nat_alt)
  with c nr_threads_queue_work [of x nodes cb now avail w] show ?thesis
    by (simp add: within_ceiling_def)
qed

subsection \<open>Submission order\<close>

lemma enqueued_append [simp]: "enqueued (xs @ ys) = enqueued xs @ enqueued ys"
  by (simp add: enqueued_def)

lemma dequeued_append [simp]: "dequeued (xs @ ys) = dequeued xs @ dequeued ys"
  by (simp add: dequeued_def)

lemma enqueued_Cons [simp]: "enqueued (a # xs) = enq_of a @ enqueued xs"
  by (simp add: enqueued_def)

lemma dequeued_Cons [simp]: "dequeued (a # xs) = deq_of a @ dequeued xs"
  by (simp add: dequeued_def)

lemma enqueued_Nil [simp]: "enqueued [] = []"
  by (simp add: enqueued_def)

lemma dequeued_Nil [simp]: "dequeued [] = []"
  by (simp add: dequeued_def)

lemma enqueued_creates [simp]:
  "enqueued (concat (replicate m (PthreadCreate True # (if cb then [CallCreateCb] else [])))) = []"
  by (induction m) auto

lemma dequeued_creates [simp]:
  "dequeued (concat (replicate m (PthreadCreate True # (if cb then [CallCreateCb] else [])))) = []"
  by (induction m) auto

lemma enqueued_dones [simp]: "enqueued (map CallDone ws) = []"
  by (induction ws) auto

lemma dequeued_dones [simp]: "dequeued (map CallDone ws) = []"
  by (induction ws) auto










subsection \<open>The sample run\<close>

lemma sample_run_eval:
  "map_sum id (\<lambda>g. map (\<lambda>wi. (tc wi, pending_list wi)) (worker_info_list g))
     (exec sample_run initial_globals) =
   Inr [(WQ_DYNAMIC, [\<lparr>w_addr = 2, fn = None, done_cb = Some 11\<rparr>]),
        (WQ_ORDERED, [\<lparr>w_addr = 3, fn = Some 10, done_cb = Some 11\<rparr>])]"
  by code_simp

lemma sample_run_pools:
  "\<exists>g p1 p0. exec sample_run initial_globals = Inr g \<and> worker_info_list g = [p1, p0] \<and>
     tc p1 = WQ_DYNAMIC \<and> tc p0 = WQ_ORDERED \<and>
     pending_list p1 = [\<lparr>w_addr = 2, fn = None, done_cb = Some 11\<rparr>] \<and>
     pending_list p0 = [\<lparr>w_addr = 3, fn = Some 10, done_cb = Some 11\<rparr>]"
proof (cases "exec sample_run initial_globals")
  case (Inl x)
  with sample_run_eval show ?thesis by simp
next
  case (Inr g)
  with sample_run_eval have
    "map (\<lambda>wi. (tc wi, pending_list wi)) (worker_info_list g) =
       [(WQ_DYNAMIC, [\<lparr>w_addr = 2, fn = None, done_cb = Some 11\<rparr>]),
        (WQ_ORDERED, [\<lparr>w_addr = 3, fn = Some 10, done_cb = Some 11\<rparr>])]"
    by simp
  then obtain p1 p0 where "worker_info_list g = [p1, p0]"
    and "(tc p1, pending_list p1) =
       (WQ_DYNAMIC, [\<lparr>w_addr = 2, fn = None, done_cb = Some 11\<rparr>])"
    and "(tc p0, pending_list p0) =
       (WQ_ORDERED, [\<lparr>w_addr = 3, fn = Some 10, done_cb = Some 11\<rparr>])"
    by (auto simp: map_eq_Cons_conv)
  with Inr show ?thesis
    by simp
qed


lemma sample_run_nodes: "guarded (\<lambda>s. unat (nr_nodes s) \<le> 1) sample_run initial_globals"
  by code_simp

lemma guarded_mono:
  assumes "guarded G evs g" and "\<And>s. G s \<Longrightarrow> H s"
  shows "guarded H evs g"
  using assms(1)
proof (induction evs arbitrary: g)
  case Nil
  show ?case by simp
next
  case (Cons e evs)
  then show ?case
    by (auto simp: assms(2) split: sum.splits)
qed

lemma sample_run_small:
  "guarded (\<lambda>s. list_all (\<lambda>wi. length (pending_list wi) + length (filter live (threads wi)) < 9)
                 (worker_info_list s))
     sample_run initial_globals"
  by code_simp

lemma sample_run_fits: "guarded all_fit sample_run initial_globals"
proof (rule guarded_mono [OF sample_run_small])
  fix s :: "size_t wq_globals"
  assume "list_all (\<lambda>wi. length (pending_list wi) + length (filter live (threads wi)) < 9)
            (worker_info_list s)"
  then show "all_fit s"
    by (auto simp: all_fit_def fits_def list_all_iff)
qed

theorem nr_pending_is_list_length_witness:
  "map_sum id (\<lambda>g. map nr_pending (worker_info_list g)) (exec sample_run initial_globals) =
     Inr [1, 1]"
proof -
  from sample_run_pools obtain g p1 p0 where
    e: "exec sample_run initial_globals = Inr g" and l: "worker_info_list g = [p1, p0]" and
    p: "pending_list p1 = [\<lparr>w_addr = 2, fn = None, done_cb = Some 11\<rparr>]"
       "pending_list p0 = [\<lparr>w_addr = 3, fn = Some 10, done_cb = Some 11\<rparr>]"
    by blast
  from l have m: "p1 \<in> set (worker_info_list g)" "p0 \<in> set (worker_info_list g)"
    by simp_all
  from nr_pending_is_list_length [OF e m(1)] p have "nr_pending p1 = 1"
    by simp
  moreover from nr_pending_is_list_length [OF e m(2)] p have "nr_pending p0 = 1"
    by simp
  ultimately show ?thesis
    unfolding e by (simp add: l)
qed

theorem nr_threads_never_zero_witness:
  "map_sum id (\<lambda>g. map (\<lambda>wi. nr_threads wi \<noteq> 0) (worker_info_list g))
     (exec sample_run initial_globals) = Inr [True, True]"
proof -
  from sample_run_pools obtain g p1 p0 where
    e: "exec sample_run initial_globals = Inr g" and l: "worker_info_list g = [p1, p0]"
    by blast
  from l have m: "p1 \<in> set (worker_info_list g)" "p0 \<in> set (worker_info_list g)"
    by simp_all
  from nr_threads_never_zero [OF e sample_run_fits m(1)] have "nr_threads p1 \<noteq> 0"
    by simp
  moreover from nr_threads_never_zero [OF e sample_run_fits m(2)] have "nr_threads p0 \<noteq> 0"
    by simp
  ultimately show ?thesis
    unfolding e by (simp add: l)
qed

theorem nr_threads_within_ceiling_witness:
  "map_sum id (\<lambda>g. map (\<lambda>wi. (tc wi, unat (nr_threads wi) \<le> (if tc wi = WQ_ORDERED then 1 else 2)))
                    (worker_info_list g))
     (exec sample_run initial_globals) = Inr [(WQ_DYNAMIC, True), (WQ_ORDERED, True)]"
proof -
  from sample_run_pools obtain g p1 p0 where
    e: "exec sample_run initial_globals = Inr g" and l: "worker_info_list g = [p1, p0]" and
    t: "tc p1 = WQ_DYNAMIC" "tc p0 = WQ_ORDERED"
    by blast
  from l have m: "p1 \<in> set (worker_info_list g)" "p0 \<in> set (worker_info_list g)"
    by simp_all
  from nr_threads_within_ceiling [OF e sample_run_nodes m(1)] t
  have "unat (nr_threads p1) \<le> 2"
    by simp
  moreover from nr_threads_within_ceiling [OF e sample_run_nodes m(2)] t
  have "unat (nr_threads p0) \<le> 1"
    by (simp add: word_le_nat_alt)
  ultimately show ?thesis
    unfolding e using t by (simp add: l)
qed


end
